theory Spec2Isabelle
  imports Complex_Main "HOL-Library.Sublist"
begin

section \<open>Strings\<close>

text \<open>
  Python strings are modelled as HOL strings (lists of 8-bit characters). The functions
  of this section are the string methods the crawler's sources call.
\<close>

definition startswith :: "string \<Rightarrow> string \<Rightarrow> bool" where
  \<comment> \<open>\<^verbatim>\<open>s.startswith(p)\<close>\<close>
  "startswith s p = (take (length p) s = p)"

definition endswith :: "string \<Rightarrow> string \<Rightarrow> bool" where
  \<comment> \<open>\<^verbatim>\<open>s.endswith(p)\<close>\<close>
  "endswith s p = (length p \<le> length s \<and> drop (length s - length p) s = p)"

fun contains :: "string \<Rightarrow> string \<Rightarrow> bool" where
  \<comment> \<open>\<^verbatim>\<open>p in s\<close>\<close>
  "contains [] p = (p = [])"
| "contains (c # s) p = (startswith (c # s) p \<or> contains s p)"

definition split_first :: "char \<Rightarrow> string \<Rightarrow> string \<times> string" where
  \<comment> \<open>\<^verbatim>\<open>s.split(c, 1)\<close> for a string \<open>s\<close> that contains \<open>c\<close>\<close>
  "split_first c s = (takeWhile (\<lambda>x. x \<noteq> c) s, drop 1 (dropWhile (\<lambda>x. x \<noteq> c) s))"

fun replace_slashes :: "string \<Rightarrow> string" where
  \<comment> \<open>\<^verbatim>\<open>s.replace('//', '/')\<close>: the occurrences are replaced from the left, without overlap\<close>
  "replace_slashes (c # d # r) =
     (if c = CHR ''/'' \<and> d = CHR ''/'' then CHR ''/'' # replace_slashes r
      else c # replace_slashes (d # r))"
| "replace_slashes [c] = [c]"
| "replace_slashes [] = []"

definition ascii_alpha :: "char \<Rightarrow> bool" where
  "ascii_alpha c = (let n = (of_char c :: nat) in (65 \<le> n \<and> n \<le> 90) \<or> (97 \<le> n \<and> n \<le> 122))"

definition ascii_digit :: "char \<Rightarrow> bool" where
  "ascii_digit c = (let n = (of_char c :: nat) in 48 \<le> n \<and> n \<le> 57)"

definition ascii_upper :: "char \<Rightarrow> bool" where
  "ascii_upper c = (let n = (of_char c :: nat) in 65 \<le> n \<and> n \<le> 90)"

definition ascii_lower :: "char \<Rightarrow> char" where
  \<comment> \<open>\<^verbatim>\<open>str.lower\<close> on one character of a scheme (scheme characters are ASCII)\<close>
  "ascii_lower c = (if ascii_upper c then char_of (of_char c + (32::nat)) else c)"

section \<open>The standard library's URL parser\<close>

text \<open>
  \<^verbatim>\<open>urllib.parse.urlparse\<close> is not part of the repository. It is modelled after the
  CPython 3.11 implementation (\<^verbatim>\<open>urlsplit\<close>, \<^verbatim>\<open>_splitnetloc\<close>, \<^verbatim>\<open>_splitparams\<close>),
  step by step. The parser raises \<^verbatim>\<open>ValueError\<close> on a network location with unbalanced
  square brackets or with an invalid bracketed host: that is the result \<open>None\<close>. The
  validation of the text between the brackets (\<^verbatim>\<open>_check_bracketed_host\<close>, which calls the
  \<^verbatim>\<open>ipaddress\<close> module) is the parameter \<open>chk\<close>; every theorem below holds for every
  such validator. \<^verbatim>\<open>_checknetloc\<close> only rejects characters beyond the 8-bit range.
\<close>

definition whatwg_c0_control_or_space :: "char \<Rightarrow> bool" where
  "whatwg_c0_control_or_space c = ((of_char c :: nat) \<le> 32)"

definition unsafe_url_byte :: "char \<Rightarrow> bool" where
  "unsafe_url_byte c = (c = CHR 0x09 \<or> c = CHR 0x0D \<or> c = CHR 0x0A)"

definition scheme_char :: "char \<Rightarrow> bool" where
  "scheme_char c = (ascii_alpha c \<or> ascii_digit c \<or> c = CHR ''+'' \<or> c = CHR ''-'' \<or> c = CHR ''.'')"

definition netloc_delim :: "char \<Rightarrow> bool" where
  "netloc_delim c = (c = CHR ''/'' \<or> c = CHR ''?'' \<or> c = CHR ''#'')"

definition splitnetloc :: "string \<Rightarrow> string \<times> string" where
  \<comment> \<open>\<^verbatim>\<open>_splitnetloc(url, 2)\<close>\<close>
  "splitnetloc url =
     (takeWhile (\<lambda>c. \<not> netloc_delim c) (drop 2 url),
      dropWhile (\<lambda>c. \<not> netloc_delim c) (drop 2 url))"

definition bracketed_host :: "string \<Rightarrow> string" where
  \<comment> \<open>\<^verbatim>\<open>netloc.partition('[')[2].partition(']')[0]\<close>\<close>
  "bracketed_host netloc =
     takeWhile (\<lambda>c. c \<noteq> CHR '']'') (drop 1 (dropWhile (\<lambda>c. c \<noteq> CHR ''['') netloc))"

definition netloc_ok :: "(string \<Rightarrow> bool) \<Rightarrow> string \<Rightarrow> bool" where
  "netloc_ok chk netloc =
     (if (CHR ''['' \<in> set netloc \<and> CHR '']'' \<notin> set netloc) \<or>
         (CHR '']'' \<in> set netloc \<and> CHR ''['' \<notin> set netloc) then False
      else if CHR ''['' \<in> set netloc \<and> CHR '']'' \<in> set netloc then chk (bracketed_host netloc)
      else True)"

definition split_scheme :: "string \<Rightarrow> string \<times> string" where
  \<comment> \<open>the scheme of \<^verbatim>\<open>urlsplit\<close>: the text before the first colon, when it is not empty,
      starts with an ASCII letter and has scheme characters only\<close>
  "split_scheme url =
     (let pre = takeWhile (\<lambda>c. c \<noteq> CHR '':'') url
      in if pre \<noteq> url \<and> pre \<noteq> [] \<and> ascii_alpha (hd url) \<and> list_all scheme_char pre
         then (map ascii_lower pre, drop (length pre + 1) url)
         else ([], url))"

definition urlsplit :: "(string \<Rightarrow> bool) \<Rightarrow> string \<Rightarrow> (string \<times> string \<times> string \<times> string \<times> string) option" where
  "urlsplit chk url0 =
     (let url1 = dropWhile whatwg_c0_control_or_space url0;
          url2 = filter (\<lambda>c. \<not> unsafe_url_byte c) url1;
          (scheme, url3) = split_scheme url2;
          (netloc, url4) = (if take 2 url3 = ''//'' then splitnetloc url3 else ([], url3))
      in if \<not> netloc_ok chk netloc then None
         else
           let (url5, fragment) =
                 (if CHR ''#'' \<in> set url4 then split_first CHR ''#'' url4 else (url4, []));
               (url6, query) =
                 (if CHR ''?'' \<in> set url5 then split_first CHR ''?'' url5 else (url5, []))
           in Some (scheme, netloc, url6, query, fragment))"

definition uses_params :: "string list" where
  "uses_params = ['''', ''ftp'', ''hdl'', ''prospero'', ''http'', ''imap'',
                  ''https'', ''shttp'', ''rtsp'', ''rtsps'', ''rtspu'', ''sip'',
                  ''sips'', ''mms'', ''sftp'', ''tel'']"

definition splitparams :: "string \<Rightarrow> string \<times> string" where
  \<comment> \<open>\<^verbatim>\<open>_splitparams(url)\<close>, called on a \<open>url\<close> that contains a semicolon\<close>
  "splitparams url =
     (if CHR ''/'' \<in> set url then
        (let front = rev (dropWhile (\<lambda>c. c \<noteq> CHR ''/'') (rev url));
             seg = rev (takeWhile (\<lambda>c. c \<noteq> CHR ''/'') (rev url))
         in if CHR '';'' \<notin> set seg then (url, [])
            else (front @ fst (split_first CHR '';'' seg), snd (split_first CHR '';'' seg)))
      else split_first CHR '';'' url)"

definition urlparse ::
  "(string \<Rightarrow> bool) \<Rightarrow> string \<Rightarrow> (string \<times> string \<times> string \<times> string \<times> string \<times> string) option" where
  "urlparse chk url =
     (case urlsplit chk url of
        None \<Rightarrow> None
      | Some (scheme, netloc, url', query, fragment) \<Rightarrow>
          (if scheme \<in> set uses_params \<and> CHR '';'' \<in> set url'
           then Some (scheme, netloc, fst (splitparams url'), snd (splitparams url'), query, fragment)
           else Some (scheme, netloc, url', [], query, fragment)))"

section \<open>url_utils.py\<close>

definition get_url_info ::
  "(string \<Rightarrow> bool) \<Rightarrow> string \<Rightarrow> (string \<times> bool \<times> string \<times> string \<times> string) option" where
  "get_url_info chk url =
     (case urlparse chk url of
        None \<Rightarrow> None
      | Some (scheme, netloc, ppath, params, query, frag) \<Rightarrow>
          Some (scheme,
                (if startswith netloc ''www.'' then True else False),
                (if startswith netloc ''www.'' then drop 4 netloc else netloc),
                (if query = [] then ppath else ppath @ ''?'' @ query),
                frag))"

function rcs_loop :: "string \<Rightarrow> string \<Rightarrow> string" where
  \<comment> \<open>the while loop of \<^verbatim>\<open>remove_consecutive_slashes\<close>, on its two variables\<close>
  "rcs_loop previous_url formatted_url =
     (if formatted_url \<noteq> previous_url
      then rcs_loop formatted_url (replace_slashes formatted_url)
      else formatted_url)"
  by pat_completeness auto
termination
proof (relation "measure (\<lambda>(p, f). length f + (if f \<noteq> p then 1 else 0))")
  show "wf (measure (\<lambda>(p, f). length f + (if f \<noteq> p then 1 else 0)))" by simp
next
  fix previous_url formatted_url :: string
  have le: "length (replace_slashes s) \<le> length s" for s
    by (induction s rule: replace_slashes.induct) auto
  have lt: "replace_slashes s \<noteq> s \<Longrightarrow> length (replace_slashes s) < length s" for s
  proof (induction s rule: replace_slashes.induct)
    case (1 c d r)
    show ?case
    proof (cases "c = CHR ''/'' \<and> d = CHR ''/''")
      case True
      then show ?thesis using le [of r] by simp
    next
      case False
      then show ?thesis using 1 by auto
    qed
  qed simp_all
  assume "formatted_url \<noteq> previous_url"
  then show "((formatted_url, replace_slashes formatted_url), (previous_url, formatted_url))
      \<in> measure (\<lambda>(p, f). length f + (if f \<noteq> p then 1 else 0))"
    using lt [of formatted_url] by auto
qed

declare rcs_loop.simps [simp del]

definition remove_consecutive_slashes :: "string \<Rightarrow> string" where
  "remove_consecutive_slashes basic_url = rcs_loop basic_url (replace_slashes basic_url)"

fun rcs_loop_fuel :: "nat \<Rightarrow> string \<Rightarrow> string \<Rightarrow> string option" where
  \<comment> \<open>the same loop, allowed to run its body at most \<open>n\<close> times; \<open>None\<close> when the loop
      condition still holds after \<open>n\<close> iterations\<close>
  "rcs_loop_fuel 0 previous_url formatted_url =
     (if formatted_url \<noteq> previous_url then None else Some formatted_url)"
| "rcs_loop_fuel (Suc n) previous_url formatted_url =
     (if formatted_url \<noteq> previous_url
      then rcs_loop_fuel n formatted_url (replace_slashes formatted_url)
      else Some formatted_url)"

record url =
  string_url :: string
  parent_protocol :: string
  parent_www :: "bool option"
  parent_domain :: string
  parent_path :: string
  protocol :: string
  www :: bool
  domain :: string
  path :: string
  fragment :: string
  use_parent_protocol :: bool

definition refactor :: "string \<Rightarrow> string" where
  \<comment> \<open>the local function \<^verbatim>\<open>refactor\<close> of \<^verbatim>\<open>Url._refactor_ending\<close>\<close>
  "refactor text =
     (let t1 = (if contains text ''//'' then remove_consecutive_slashes text else text);
          t2 = (if t1 = ''/'' then [] else t1)
      in if endswith t2 ''/'' then butlast t2 else t2)"

definition refactor_ending :: "url \<Rightarrow> url" where
  "refactor_ending self =
     (let self1 = (if path self \<noteq> [] then self\<lparr>path := refactor (path self)\<rparr> else self)
      in if fragment self1 \<noteq> [] then self1\<lparr>fragment := refactor (fragment self1)\<rparr> else self1)"

definition refactor_path :: "url \<Rightarrow> url" where
  "refactor_path self =
     (let self1 =
            (if startswith (path self) ''./''
             then self\<lparr>path := parent_path self @ drop 1 (path self)\<rparr>
             else if path self \<noteq> [] \<and> \<not> startswith (path self) ''/''
             then self\<lparr>path := parent_path self @ ''/'' @ path self\<rparr>
             else self)
      in if parent_path self1 \<noteq> [] \<and>
            (startswith (string_url self1) ''#'' \<or> startswith (string_url self1) ''./#'')
         then self1\<lparr>path := parent_path self1\<rparr>
         else self1)"

definition refactor_attributes :: "url \<Rightarrow> url" where
  "refactor_attributes self =
     (let self1 =
            (if domain self = [] \<or> domain self = parent_domain self then
               (let a = (if protocol self = [] then self\<lparr>protocol := parent_protocol self\<rparr> else self);
                    b = (if domain a = [] then a\<lparr>domain := parent_domain a\<rparr> else a);
                    c = (case parent_www b of
                           Some pw \<Rightarrow> (if \<not> www b then b\<lparr>www := pw\<rparr> else b)
                         | None \<Rightarrow> b)
                in refactor_path c)
             else self)
      in refactor_ending self1)"

definition refactor_root_attributes :: "url \<Rightarrow> url" where
  "refactor_root_attributes self =
     (let a = (if parent_protocol self = [] then self\<lparr>parent_protocol := protocol self\<rparr> else self);
          b = (if parent_domain a = [] then a\<lparr>parent_domain := domain a\<rparr> else a)
      in if parent_www b = None then b\<lparr>parent_www := Some (www b)\<rparr> else b)"

definition init_attributes ::
  "string \<Rightarrow> url option \<Rightarrow> bool \<Rightarrow> string \<times> bool \<times> string \<times> string \<times> string \<Rightarrow> url" where
  \<comment> \<open>the attributes as \<^verbatim>\<open>__init__\<close> assigns them: \<^verbatim>\<open>_fill_parent_attributes\<close>, the raw
      string, the tuple of \<^verbatim>\<open>get_url_info\<close> and \<^verbatim>\<open>use_parent_protocol\<close>\<close>
  "init_attributes url_str parent_url upp info =
     (case info of (pr, w, d, p, f) \<Rightarrow>
        \<lparr> string_url = url_str,
          parent_protocol = (case parent_url of Some pu \<Rightarrow> protocol pu | None \<Rightarrow> []),
          parent_www = (case parent_url of Some pu \<Rightarrow> Some (www pu) | None \<Rightarrow> None),
          parent_domain = (case parent_url of Some pu \<Rightarrow> domain pu | None \<Rightarrow> []),
          parent_path = (case parent_url of Some pu \<Rightarrow> path pu | None \<Rightarrow> []),
          protocol = pr, www = w, domain = d, path = p, fragment = f,
          use_parent_protocol =
            (case parent_url of
               Some pu \<Rightarrow> (if upp then use_parent_protocol pu else upp)
             | None \<Rightarrow> upp) \<rparr>)"

definition Url :: "(string \<Rightarrow> bool) \<Rightarrow> string \<Rightarrow> url option \<Rightarrow> bool \<Rightarrow> url option" where
  \<comment> \<open>\<^verbatim>\<open>Url.__init__(url, parent_url, use_parent_protocol)\<close>; \<open>None\<close> when the parser raises\<close>
  "Url chk url_str parent_url upp =
     (case get_url_info chk url_str of
        None \<Rightarrow> None
      | Some info \<Rightarrow>
          Some (refactor_root_attributes (refactor_attributes
                  (init_attributes url_str parent_url upp info))))"

definition get_protocol :: "url \<Rightarrow> string" where
  "get_protocol self =
     (if use_parent_protocol self \<and> domain self = parent_domain self \<and>
         (protocol self = [] \<or> startswith (protocol self) ''http'')
      then parent_protocol self else protocol self)"

definition get_full_url :: "url \<Rightarrow> string" where
  "get_full_url self =
     get_protocol self @ ''://'' @ (if www self then ''www.'' else []) @ domain self @ path self
       @ (if fragment self \<noteq> [] then ''/#'' @ fragment self else [])"

definition get_basic_url :: "url \<Rightarrow> string" where
  "get_basic_url self =
     (if startswith (get_protocol self) ''http''
      then get_protocol self @ ''://'' @ domain self @ path self
      else string_url self)"

section \<open>The regular expressions of \<^verbatim>\<open>re\<close>\<close>

text \<open>
  The patterns the sources use are terms of the type \<open>rx\<close>. A matcher state is the
  character before the current position (for \<^verbatim>\<open>\b\<close>) and the text that is left;
  \<open>rx_match\<close> returns every state in which a match of the pattern can end, in the order
  in which backtracking tries them. \<^verbatim>\<open>re.fullmatch\<close> succeeds when one of them has no
  text left.
\<close>

datatype rx =
    Lit string                         \<comment> \<open>a literal text\<close>
  | Dot                                \<comment> \<open>\<^verbatim>\<open>.\<close>: any character but a newline\<close>
  | Rep "char \<Rightarrow> bool" nat nat         \<comment> \<open>\<^verbatim>\<open>[...]{m,n}\<close>\<close>
  | Star "char \<Rightarrow> bool"                \<comment> \<open>\<^verbatim>\<open>[...]*\<close>\<close>
  | Bnd                                \<comment> \<open>\<^verbatim>\<open>\b\<close>\<close>
  | Seq rx rx
  | Alt rx rx
  | Opt rx                             \<comment> \<open>\<^verbatim>\<open>(...)?\<close>\<close>

definition word_char :: "char \<Rightarrow> bool" where
  \<comment> \<open>\<^verbatim>\<open>\w\<close> of a text pattern, on the characters below 256\<close>
  "word_char c =
     (let n = (of_char c :: nat)
      in ascii_alpha c \<or> ascii_digit c \<or> c = CHR ''_'' \<or>
         n = 170 \<or> n = 178 \<or> n = 179 \<or> n = 181 \<or> n = 185 \<or> n = 186 \<or>
         (188 \<le> n \<and> n \<le> 190) \<or> (192 \<le> n \<and> n \<le> 214) \<or>
         (216 \<le> n \<and> n \<le> 246) \<or> 248 \<le> n)"

fun rep_set :: "(char \<Rightarrow> bool) \<Rightarrow> nat \<Rightarrow> nat \<Rightarrow> char option \<Rightarrow> string \<Rightarrow> (char option \<times> string) list" where
  "rep_set p m n prev [] = (if m = 0 then [(prev, [])] else [])"
| "rep_set p m n prev (c # s) =
     (if 0 < n \<and> p c then rep_set p (m - 1) (n - 1) (Some c) s else [])
       @ (if m = 0 then [(prev, c # s)] else [])"

fun star_set :: "(char \<Rightarrow> bool) \<Rightarrow> char option \<Rightarrow> string \<Rightarrow> (char option \<times> string) list" where
  "star_set p prev [] = [(prev, [])]"
| "star_set p prev (c # s) = (if p c then star_set p (Some c) s else []) @ [(prev, c # s)]"

definition at_boundary :: "char option \<Rightarrow> string \<Rightarrow> bool" where
  "at_boundary prev s =
     ((case prev of None \<Rightarrow> False | Some c \<Rightarrow> word_char c) \<noteq>
      (case s of [] \<Rightarrow> False | c # _ \<Rightarrow> word_char c))"

fun rx_match :: "rx \<Rightarrow> char option \<times> string \<Rightarrow> (char option \<times> string) list" where
  "rx_match (Lit t) (prev, s) =
     (if t = [] then [(prev, s)]
      else if startswith s t then [(Some (last t), drop (length t) s)] else [])"
| "rx_match Dot (prev, s) =
     (case s of [] \<Rightarrow> [] | c # r \<Rightarrow> (if c \<noteq> CHR 0x0A then [(Some c, r)] else []))"
| "rx_match (Rep p m n) (prev, s) = rep_set p m n prev s"
| "rx_match (Star p) (prev, s) = star_set p prev s"
| "rx_match Bnd (prev, s) = (if at_boundary prev s then [(prev, s)] else [])"
| "rx_match (Seq a b) st = concat (map (rx_match b) (rx_match a st))"
| "rx_match (Alt a b) st = rx_match a st @ rx_match b st"
| "rx_match (Opt a) st = rx_match a st @ [st]"

definition fullmatch :: "rx \<Rightarrow> string \<Rightarrow> bool" where
  \<comment> \<open>\<^verbatim>\<open>re.fullmatch(regex, s) is not None\<close>\<close>
  "fullmatch regex s = list_ex (\<lambda>st. snd st = []) (rx_match regex (None, s))"

definition url_char :: "char \<Rightarrow> bool" where
  \<comment> \<open>\<^verbatim>\<open>[a-zA-Z0-9@:%._\+~#?&//=]\<close>\<close>
  "url_char c = (ascii_alpha c \<or> ascii_digit c \<or> c \<in> set ''@:%._+~#?&/='')"

definition url_char_dash :: "char \<Rightarrow> bool" where
  \<comment> \<open>\<^verbatim>\<open>[-a-zA-Z0-9@:%._\+~#?&//=]\<close>\<close>
  "url_char_dash c = (c = CHR ''-'' \<or> url_char c)"

definition lower_char :: "char \<Rightarrow> bool" where
  \<comment> \<open>\<^verbatim>\<open>[a-z]\<close>\<close>
  "lower_char c = (let n = (of_char c :: nat) in 97 \<le> n \<and> n \<le> 122)"

definition default_regex :: rx where
  \<comment> \<open>\<^verbatim>\<open>((http|https)://)(www.)?[a-zA-Z0-9@:%._\+~#?&//=]{2,256}\.[a-z]{2,6}\b([-a-zA-Z0-9@:%._\+~#?&//=]*)\<close>\<close>
  "default_regex =
     Seq (Seq (Alt (Lit ''http'') (Lit ''https'')) (Lit ''://''))
    (Seq (Opt (Seq (Lit ''www'') Dot))
    (Seq (Rep url_char 2 256)
    (Seq (Lit ''.'')
    (Seq (Rep lower_char 2 6)
    (Seq Bnd
         (Star url_char_dash))))))"

section \<open>Validity and crawlability\<close>

definition is_valid_rx :: "rx \<Rightarrow> url \<Rightarrow> bool" where
  \<comment> \<open>\<^verbatim>\<open>Url.is_valid(regex)\<close>\<close>
  "is_valid_rx regex self =
     (let basic_url = get_basic_url self
      in startswith basic_url ''http'' \<and> \<not> contains basic_url ''/../'' \<and> fullmatch regex basic_url)"

definition is_valid :: "url \<Rightarrow> bool" where
  \<comment> \<open>\<^verbatim>\<open>Url.is_valid()\<close>: the regex is the default one\<close>
  "is_valid self = is_valid_rx default_regex self"

definition is_content_url :: "url \<Rightarrow> bool" where
  "is_content_url self =
     (let basic_url = get_basic_url self
      in endswith basic_url ''.png'' \<or> endswith basic_url ''.pdf'' \<or> endswith basic_url ''.jpg'' \<or>
         endswith basic_url ''.jpeg'' \<or> endswith basic_url ''.txt'')"

definition is_crawlable_rx :: "rx \<Rightarrow> url \<Rightarrow> bool" where
  \<comment> \<open>\<^verbatim>\<open>Url.is_crawlable(regex)\<close>\<close>
  "is_crawlable_rx regex self = (is_valid_rx regex self \<and> \<not> is_content_url self)"

definition is_crawlable :: "url \<Rightarrow> bool" where
  \<comment> \<open>\<^verbatim>\<open>Url.is_crawlable()\<close>: the regex is the default one\<close>
  "is_crawlable self = is_crawlable_rx default_regex self"

definition is_xml :: "url \<Rightarrow> bool" where
  "is_xml self = endswith (get_basic_url self) ''.xml''"

section \<open>UrlSet\<close>

text \<open>
  The dictionary \<^verbatim>\<open>_items\<close> keeps its insertion order, which \<^verbatim>\<open>values()\<close> exposes:
  it is an association list from basic urls to Url objects.
\<close>

definition UrlSet_add :: "(string \<times> url) list \<Rightarrow> url \<Rightarrow> (string \<times> url) list" where
  "UrlSet_add items item =
     (let item_hash = get_basic_url item
      in if item_hash \<notin> set (map fst items) then items @ [(item_hash, item)] else items)"

definition UrlSet :: "url list \<Rightarrow> (string \<times> url) list" where
  "UrlSet urls = foldl UrlSet_add [] urls"

definition UrlSet_keys :: "(string \<times> url) list \<Rightarrow> string list" where
  "UrlSet_keys items = map fst items"

definition UrlSet_values :: "(string \<times> url) list \<Rightarrow> url list" where
  "UrlSet_values items = map snd items"

section \<open>Auxiliary notions\<close>

definition normalized :: "string \<Rightarrow> bool" where
  \<comment> \<open>a text without two consecutive slashes and without a trailing slash\<close>
  "normalized t = (\<not> sublist ''//'' t \<and> \<not> suffix ''/'' t)"

section \<open>crawler.py\<close>

text \<open>
  The collaborators outside the repository are the fields of \<open>externals\<close>: the validator
  of bracketed hosts inside the URL parser, the anchor extraction of BeautifulSoup (the
  \<^verbatim>\<open>href\<close> values of the \<^verbatim>\<open>a\<close> tags that have one, in document order), the scan
  \<^verbatim>\<open>re.finditer\<close> of a text with the default regex (the matched texts, in order), and the
  interpreter's recursion limit: \<open>recursion_limit\<close> is the number of calls of \<^verbatim>\<open>_get_urls\<close>
  that can be nested inside the first one.
\<close>

record externals =
  check_bracketed_host :: "string \<Rightarrow> bool"
  find_all_hrefs :: "string \<Rightarrow> string list"
  finditer_default :: "string \<Rightarrow> string list"
  recursion_limit :: nat

record crawler =
  url :: url
  headers :: "(string \<times> string) list"
  domain_filter :: bool
  max_runners :: int
  print_in_real_time :: bool
  max_retries :: int
  sleep_between_retries :: real
  max_depth :: "int option"
  regex_search :: bool
  assume_parent_protocol :: bool
  sleep_after_request :: real
  concurrent_requests_limit :: "int option"

definition default_headers :: "(string \<times> string) list" where
  "default_headers = [(''User-Agent'', ''Mozilla/5.0'')]"

definition Crawler ::
  "externals \<Rightarrow> string \<Rightarrow> (string \<times> string) list option \<Rightarrow> bool \<Rightarrow> bool \<Rightarrow> int \<Rightarrow> bool \<Rightarrow> int
     \<Rightarrow> real \<Rightarrow> int option \<Rightarrow> bool \<Rightarrow> real \<Rightarrow> int option \<Rightarrow> crawler option" where
  \<comment> \<open>\<^verbatim>\<open>Crawler.__init__\<close>; \<open>None\<close> when the root url does not parse\<close>
  "Crawler ext url_str hdrs rs df mr pirt mxr sbr md app sar crl =
     (case Url (check_bracketed_host ext) url_str None True of
        None \<Rightarrow> None
      | Some root_url \<Rightarrow>
          Some \<lparr> url = root_url,
                 headers = (case hdrs of None \<Rightarrow> default_headers
                            | Some h \<Rightarrow> (if h \<noteq> [] then h else default_headers)),
                 domain_filter = df,
                 max_runners = (if mr > 0 then mr else 1),
                 print_in_real_time = pirt,
                 max_retries = (if mxr \<ge> 0 then mxr else 0),
                 sleep_between_retries = (if sbr \<ge> 0 then sbr else 0.3),
                 max_depth = (case md of None \<Rightarrow> None | Some m \<Rightarrow> Some (if m < 0 then 0 else m)),
                 regex_search = rs,
                 assume_parent_protocol = app,
                 sleep_after_request = (if sar \<ge> 0 then sar else 0),
                 concurrent_requests_limit =
                   (case crl of None \<Rightarrow> None | Some l \<Rightarrow> (if l \<noteq> 0 \<and> l > 0 then Some l else None)) \<rparr>)"

fun construct_urls :: "externals \<Rightarrow> crawler \<Rightarrow> url \<Rightarrow> string list \<Rightarrow> url list option" where
  \<comment> \<open>the list comprehension over the anchors: the first href that does not parse raises\<close>
  "construct_urls ext self parent_url [] = Some []"
| "construct_urls ext self parent_url (href # hrefs) =
     (case Url (check_bracketed_host ext) href (Some parent_url) (assume_parent_protocol self) of
        None \<Rightarrow> None
      | Some u \<Rightarrow>
          (case construct_urls ext self parent_url hrefs of
             None \<Rightarrow> None
           | Some us \<Rightarrow> Some (u # us)))"

fun append_matches :: "externals \<Rightarrow> crawler \<Rightarrow> url \<Rightarrow> url list \<Rightarrow> string list \<Rightarrow> url list option" where
  \<comment> \<open>the loop over the regex matches, on the list \<^verbatim>\<open>urls\<close> it extends\<close>
  "append_matches ext self parent_url urls [] = Some urls"
| "append_matches ext self parent_url urls (m # ms) =
     (case Url (check_bracketed_host ext) m (Some parent_url) (assume_parent_protocol self) of
        None \<Rightarrow> None
      | Some url_to_append \<Rightarrow>
          append_matches ext self parent_url
            (if get_basic_url url_to_append \<notin> set (UrlSet_keys (UrlSet urls))
             then urls @ [url_to_append] else urls)
            ms)"

definition get_urls_from_text :: "externals \<Rightarrow> crawler \<Rightarrow> string \<Rightarrow> url \<Rightarrow> url list option" where
  "get_urls_from_text ext self html_text parent_url =
     (case construct_urls ext self parent_url (find_all_hrefs ext html_text) of
        None \<Rightarrow> None
      | Some urls \<Rightarrow>
          (case (if regex_search self
                 then append_matches ext self parent_url urls (finditer_default ext html_text)
                 else Some urls) of
             None \<Rightarrow> None
           | Some urls' \<Rightarrow>
               Some (if domain_filter self
                     then filter (\<lambda>u. domain (url self) = domain u) urls'
                     else urls')))"

text \<open>
  The transport: \<^verbatim>\<open>_get\<close> returns the text of the page, raises \<^verbatim>\<open>UnicodeDecodeError\<close>, or
  raises another exception. A transport is a function from the retry counter of a request
  to the outcome of that request. \<^verbatim>\<open>_get_urls\<close> returns the list of urls, or \<open>None\<close> when an
  exception leaves it, together with the requests and sleeps it performed. A retry is a
  call of \<^verbatim>\<open>_get_urls\<close> from inside the \<^verbatim>\<open>except\<close> block of the call before it, so the call
  with the retry counter \<open>r\<close> is nested \<open>r\<close> deep: when the recursion limit allows no further
  nesting, the retry raises \<^verbatim>\<open>RecursionError\<close> in the handler, and the exception leaves
  every enclosing call.
\<close>

datatype response = Text string | UnicodeDecodeError | OtherException

datatype effect = Request string | Sleep real

definition sleep_if_positive :: "real \<Rightarrow> effect list" where
  "sleep_if_positive t = (if t > 0 then [Sleep t] else [])"

function get_urls ::
  "externals \<Rightarrow> crawler \<Rightarrow> (int \<Rightarrow> response) \<Rightarrow> url \<Rightarrow> int \<Rightarrow> url list option \<times> effect list" where
  "get_urls ext self transport u retries =
     (case transport retries of
        UnicodeDecodeError \<Rightarrow> (Some [], [Request (get_basic_url u)])
      | OtherException \<Rightarrow>
          (if retries < max_retries self
           then (if int (recursion_limit ext) \<le> retries
                 then (None, Request (get_basic_url u)
                               # sleep_if_positive (sleep_between_retries self))
                 else (fst (get_urls ext self transport u (retries + 1)),
                       Request (get_basic_url u) # sleep_if_positive (sleep_between_retries self)
                         @ snd (get_urls ext self transport u (retries + 1))))
           else (Some [], [Request (get_basic_url u)]))
      | Text html_text \<Rightarrow>
          (case get_urls_from_text ext self html_text u of
             None \<Rightarrow> (None, [Request (get_basic_url u)])
           | Some urls \<Rightarrow>
               (Some urls, Request (get_basic_url u) # sleep_if_positive (sleep_after_request self))))"
  by pat_completeness auto
termination
  by (relation "measure (\<lambda>(ext, self, transport, u, retries). nat (max_retries self - retries))") auto

declare get_urls.simps [simp del]

text \<open>
  The state of a run of \<^verbatim>\<open>crawl\<close>: the dictionary \<^verbatim>\<open>crawled_urls\<close>, the items of the queue
  in their order, the queue's counter of unfinished tasks (which \<^verbatim>\<open>join\<close> waits on), the
  items of the workers that are suspended in \<^verbatim>\<open>_get_urls\<close>, and the number of workers that
  an exception has ended. A worker runs without suspension from the return of
  \<^verbatim>\<open>queue.get\<close> to the call of \<^verbatim>\<open>_get_urls\<close>, and from the return of \<^verbatim>\<open>_get_urls\<close> to
  \<^verbatim>\<open>task_done\<close>: these are the steps.
\<close>

record state =
  crawled_urls :: "string \<rightharpoonup> string list"
  queue :: "(url \<times> int) list"
  unfinished_tasks :: nat
  fetching :: "(url \<times> int) list"
  crashed :: nat

definition put_nowait :: "url \<times> int \<Rightarrow> state \<Rightarrow> state" where
  "put_nowait item st = st\<lparr>queue := queue st @ [item], unfinished_tasks := unfinished_tasks st + 1\<rparr>"

definition task_done :: "state \<Rightarrow> state" where
  "task_done st = st\<lparr>unfinished_tasks := unfinished_tasks st - 1\<rparr>"

definition add_url_to_queue :: "crawler \<Rightarrow> int \<Rightarrow> state \<Rightarrow> url \<Rightarrow> state" where
  \<comment> \<open>the body of the loop of \<^verbatim>\<open>_add_urls_to_queue\<close>\<close>
  "add_url_to_queue self depth st u =
     (let basic_url = get_basic_url u
      in if domain u = domain (url self) \<and> basic_url \<notin> dom (crawled_urls st) \<and> is_crawlable u
         then put_nowait (u, depth + 1) st
         else st)"

definition add_urls_to_queue :: "crawler \<Rightarrow> (string \<times> url) list \<Rightarrow> int \<Rightarrow> state \<Rightarrow> state" where
  "add_urls_to_queue self urls depth st = foldl (add_url_to_queue self depth) st (UrlSet_values urls)"

definition finish_item :: "crawler \<Rightarrow> url \<Rightarrow> int \<Rightarrow> url list \<Rightarrow> state \<Rightarrow> state" where
  \<comment> \<open>\<^verbatim>\<open>_queue_processor\<close> from the return of \<^verbatim>\<open>_get_urls\<close> (the list \<open>got\<close>) to \<^verbatim>\<open>task_done\<close>\<close>
  "finish_item self url_in_queue depth got st =
     (let basic_url_in_queue = get_basic_url url_in_queue;
          urls = filter (\<lambda>u. get_basic_url u \<noteq> basic_url_in_queue) got;
          basic_urls = map get_basic_url urls;
          st1 = st\<lparr>crawled_urls := (crawled_urls st)(basic_url_in_queue \<mapsto> basic_urls),
                   fetching := remove1 (url_in_queue, depth) (fetching st)\<rparr>;
          st2 = (if (case max_depth self of None \<Rightarrow> True | Some m \<Rightarrow> depth < m)
                 then add_urls_to_queue self (UrlSet urls) depth st1
                 else st1)
      in task_done st2)"

definition idle_worker :: "crawler \<Rightarrow> state \<Rightarrow> bool" where
  \<comment> \<open>one of the \<^verbatim>\<open>max_runners\<close> workers waits in \<^verbatim>\<open>queue.get\<close>\<close>
  "idle_worker self st = (int (length (fetching st)) + int (crashed st) < max_runners self)"

datatype event =
    Skip url int                \<comment> \<open>an item whose basic url is a key already\<close>
  | Claim url int               \<comment> \<open>an item is dequeued, its key inserted, its fetch started\<close>
  | Done url int "url list"     \<comment> \<open>\<^verbatim>\<open>_get_urls\<close> returned this list for the item\<close>
  | Crash url int               \<comment> \<open>an exception left \<^verbatim>\<open>_get_urls\<close> and ended the worker\<close>

inductive step :: "externals \<Rightarrow> crawler \<Rightarrow> state \<Rightarrow> event \<Rightarrow> state \<Rightarrow> bool" where
  step_skip:
    "queue st = (u, depth) # q \<Longrightarrow> idle_worker self st \<Longrightarrow>
     get_basic_url u \<in> dom (crawled_urls st) \<Longrightarrow>
     step ext self st (Skip u depth) (task_done (st\<lparr>queue := q\<rparr>))"
| step_claim:
    "queue st = (u, depth) # q \<Longrightarrow> idle_worker self st \<Longrightarrow>
     get_basic_url u \<notin> dom (crawled_urls st) \<Longrightarrow>
     step ext self st (Claim u depth)
       (st\<lparr>queue := q, crawled_urls := (crawled_urls st)(get_basic_url u \<mapsto> []),
           fetching := fetching st @ [(u, depth)]\<rparr>)"
| step_done:
    "(u, depth) \<in> set (fetching st) \<Longrightarrow>
     fst (get_urls ext self transport u 0) = Some got \<Longrightarrow>
     step ext self st (Done u depth got) (finish_item self u depth got st)"
| step_crash:
    "(u, depth) \<in> set (fetching st) \<Longrightarrow>
     fst (get_urls ext self transport u 0) = None \<Longrightarrow>
     step ext self st (Crash u depth)
       (st\<lparr>fetching := remove1 (u, depth) (fetching st), crashed := crashed st + 1\<rparr>)"

definition initial :: "crawler \<Rightarrow> state" where
  \<comment> \<open>\<^verbatim>\<open>crawl\<close> after \<^verbatim>\<open>put_nowait((self.url, 0))\<close>\<close>
  "initial self =
     \<lparr>crawled_urls = Map.empty, queue = [(url self, 0)], unfinished_tasks = 1,
      fetching = [], crashed = 0\<rparr>"

inductive run :: "externals \<Rightarrow> crawler \<Rightarrow> event list \<Rightarrow> state \<Rightarrow> bool" where
  run_start: "run ext self [] (initial self)"
| run_next: "run ext self evs st \<Longrightarrow> step ext self st e st' \<Longrightarrow> run ext self (evs @ [e]) st'"

definition returned :: "state \<Rightarrow> bool" where
  \<comment> \<open>\<^verbatim>\<open>queue.join()\<close> returns, and \<^verbatim>\<open>crawl\<close> returns \<^verbatim>\<open>crawled_urls\<close>\<close>
  "returned st = (unfinished_tasks st = 0)"

definition requests :: "effect list \<Rightarrow> nat" where
  \<comment> \<open>the number of requests among the effects of a call\<close>
  "requests tr = length (filter (\<lambda>e. case e of Request _ \<Rightarrow> True | Sleep _ \<Rightarrow> False) tr)"

section \<open>A site for concrete runs\<close>

definition mysite_root :: url where
  \<comment> \<open>the value of \<^verbatim>\<open>Url("https://mysite.com")\<close>, see \<open>Url_mysite_root\<close>\<close>
  "mysite_root =
     \<lparr>string_url = ''https://mysite.com'', parent_protocol = ''https'', parent_www = Some False,
      parent_domain = ''mysite.com'', parent_path = [], protocol = ''https'', www = False,
      domain = ''mysite.com'', path = [], fragment = [], use_parent_protocol = True\<rparr>"

definition mysite_externals :: externals where
  \<comment> \<open>every page has one anchor \<^verbatim>\<open>/a\<close>, and its text holds the same absolute url twice;
      989 nested calls of \<^verbatim>\<open>_get_urls\<close> fit under the interpreter's default limit\<close>
  "mysite_externals =
     \<lparr>check_bracketed_host = (\<lambda>_. True),
      find_all_hrefs = (\<lambda>_. [''/a'']),
      finditer_default = (\<lambda>_. [''https://mysite.com/content'', ''https://mysite.com/content'']),
      recursion_limit = 989\<rparr>"

definition mysite_crawler :: "int option \<Rightarrow> crawler" where
  \<comment> \<open>\<^verbatim>\<open>Crawler("https://mysite.com", regex_search=True, max_depth=md)\<close>\<close>
  "mysite_crawler md =
     \<lparr>url = mysite_root, headers = default_headers, domain_filter = True, max_runners = 100,
      print_in_real_time = False, max_retries = 5, sleep_between_retries = 0.3, max_depth = md,
      regex_search = True, assume_parent_protocol = True, sleep_after_request = 0,
      concurrent_requests_limit = None\<rparr>"

definition persistent_crawler :: crawler where
  \<comment> \<open>\<^verbatim>\<open>Crawler("https://mysite.com", regex_search=True, max_retries=1000)\<close>\<close>
  "persistent_crawler = (mysite_crawler None)\<lparr>max_retries := 1000\<rparr>"

definition recorded :: "url \<Rightarrow> url list \<Rightarrow> string list" where
  \<comment> \<open>the entry that \<^verbatim>\<open>_queue_processor\<close> stores for the item \<open>u\<close> when \<^verbatim>\<open>_get_urls\<close> returned \<open>got\<close>\<close>
  "recorded u got = map get_basic_url (filter (\<lambda>c. get_basic_url c \<noteq> get_basic_url u) got)"

definition scheme_like :: "string \<Rightarrow> bool" where
  \<comment> \<open>what the parser returns as a scheme: scheme characters, lower-cased, a letter first\<close>
  "scheme_like pr =
     (list_all scheme_char pr \<and> map ascii_lower pr = pr \<and> (pr \<noteq> [] \<longrightarrow> ascii_alpha (hd pr)))"

definition last_segment :: "string \<Rightarrow> string" where
  \<comment> \<open>the text after the last slash\<close>
  "last_segment s = rev (takeWhile (\<lambda>c. c \<noteq> CHR ''/'') (rev s))"

definition before_query :: "string \<Rightarrow> string" where
  \<comment> \<open>the text before the first question mark\<close>
  "before_query s = takeWhile (\<lambda>c. c \<noteq> CHR ''?'') s"

section \<open>Properties of the string functions\<close>

lemma startswith_prefix: "startswith s p = prefix p s"
proof
  assume "startswith s p"
  then have "take (length p) s = p" by (simp add: startswith_def)
  then show "prefix p s" by (metis take_is_prefix)
next
  assume "prefix p s"
  then obtain r where "s = p @ r" by (auto simp: prefix_def)
  then show "startswith s p" by (simp add: startswith_def)
qed

lemma endswith_suffix: "endswith s p = suffix p s"
proof
  assume "endswith s p"
  then have "drop (length s - length p) s = p" by (simp add: endswith_def)
  then show "suffix p s" by (metis suffix_drop)
next
  assume "suffix p s"
  then obtain r where "s = r @ p" by (auto simp: suffix_def)
  then show "endswith s p" by (simp add: endswith_def)
qed

lemma contains_sublist: "contains s p = sublist p s"
  by (induction s) (auto simp: startswith_prefix sublist_Cons_right)

lemma length_replace_slashes_le: "length (replace_slashes s) \<le> length s"
  by (induction s rule: replace_slashes.induct) auto

lemma replace_slashes_shortens:
  "replace_slashes s \<noteq> s \<Longrightarrow> length (replace_slashes s) < length s"
proof (induction s rule: replace_slashes.induct)
  case (1 c d r)
  show ?case
  proof (cases "c = CHR ''/'' \<and> d = CHR ''/''")
    case True
    then show ?thesis using length_replace_slashes_le [of r] by simp
  next
    case False
    then show ?thesis using 1 by auto
  qed
qed simp_all

lemma rcs_loop_same [simp]: "rcs_loop p p = p"
  by (subst rcs_loop.simps) simp

lemma rcs_loop_diff: "f \<noteq> p \<Longrightarrow> rcs_loop p f = rcs_loop f (replace_slashes f)"
  by (subst rcs_loop.simps) simp

lemma rcs_loop_fuel_enough:
  "(f \<noteq> p \<longrightarrow> length f < n) \<Longrightarrow> rcs_loop_fuel n p f = Some (rcs_loop p f)"
proof (induction n arbitrary: p f)
  case 0
  then show ?case by simp
next
  case (Suc n)
  show ?case
  proof (cases "f = p")
    case True
    then show ?thesis by simp
  next
    case False
    with Suc.prems have "length f \<le> n" by simp
    then have "replace_slashes f \<noteq> f \<longrightarrow> length (replace_slashes f) < n"
      using replace_slashes_shortens [of f] by auto
    then have "rcs_loop_fuel n f (replace_slashes f) = Some (rcs_loop f (replace_slashes f))"
      by (rule Suc.IH)
    with False show ?thesis by (simp add: rcs_loop_diff)
  qed
qed

text \<open>
  C10: \<^verbatim>\<open>remove_consecutive_slashes\<close> returns on every input. Run with at most as many
  iterations of the loop body as the input has characters, the loop leaves through its
  exit test with the function's result; and a replacement pass that changes the string
  makes it strictly shorter.
\<close>

theorem remove_consecutive_slashes_terminates:
  "rcs_loop_fuel (length basic_url) basic_url (replace_slashes basic_url)
     = Some (remove_consecutive_slashes basic_url)
   \<and> (replace_slashes basic_url \<noteq> basic_url
        \<longrightarrow> length (replace_slashes basic_url) < length basic_url)"
proof
  have "replace_slashes basic_url \<noteq> basic_url
      \<longrightarrow> length (replace_slashes basic_url) < length basic_url"
    using replace_slashes_shortens [of basic_url] by blast
  then show "rcs_loop_fuel (length basic_url) basic_url (replace_slashes basic_url)
     = Some (remove_consecutive_slashes basic_url)"
    unfolding remove_consecutive_slashes_def by (rule rcs_loop_fuel_enough)
next
  show "replace_slashes basic_url \<noteq> basic_url
        \<longrightarrow> length (replace_slashes basic_url) < length basic_url"
    using replace_slashes_shortens [of basic_url] by blast
qed

theorem remove_consecutive_slashes_terminates_witness:
  "rcs_loop_fuel (length ''a//b///c'') ''a//b///c'' (replace_slashes ''a//b///c'') = Some ''a/b/c''
   \<and> replace_slashes ''a//b///c'' \<noteq> ''a//b///c''
   \<and> length (replace_slashes ''a//b///c'') < length ''a//b///c''"
proof -
  have e: "remove_consecutive_slashes ''a//b///c'' = ''a/b/c''" by code_simp
  have n: "replace_slashes ''a//b///c'' \<noteq> ''a//b///c''" by code_simp
  show ?thesis
    using remove_consecutive_slashes_terminates [of "''a//b///c''"] n unfolding e by blast
qed

text \<open>
  C5: \<^verbatim>\<open>is_crawlable()\<close> holds exactly when \<^verbatim>\<open>is_valid()\<close> holds and the basic url ends in
  none of \<^verbatim>\<open>.png\<close>, \<^verbatim>\<open>.pdf\<close>, \<^verbatim>\<open>.jpg\<close>, \<^verbatim>\<open>.jpeg\<close>, \<^verbatim>\<open>.txt\<close>.
\<close>

theorem is_crawlable_iff:
  "is_crawlable u \<longleftrightarrow>
     is_valid u \<and> \<not> suffix ''.png'' (get_basic_url u) \<and> \<not> suffix ''.pdf'' (get_basic_url u)
       \<and> \<not> suffix ''.jpg'' (get_basic_url u) \<and> \<not> suffix ''.jpeg'' (get_basic_url u)
       \<and> \<not> suffix ''.txt'' (get_basic_url u)"
  by (simp add: is_crawlable_def is_crawlable_rx_def is_valid_def is_content_url_def
      endswith_suffix Let_def)

text \<open>
  C4: \<^verbatim>\<open>is_valid()\<close> with the default regex holds exactly when the basic url starts with
  \<^verbatim>\<open>http\<close>, does not contain \<^verbatim>\<open>/../\<close> and fully matches the default regex; the three
  inputs \<^verbatim>\<open>mysite.com\<close>, \<^verbatim>\<open>mysite.com/about//here\<close> and
  \<^verbatim>\<open>https://mysite.com/here/../there\<close>, constructed with no parent, are not valid.
\<close>

theorem is_valid_iff:
  "(is_valid u \<longleftrightarrow>
      prefix ''http'' (get_basic_url u) \<and> \<not> sublist ''/../'' (get_basic_url u)
        \<and> fullmatch default_regex (get_basic_url u))
   \<and> map_option is_valid (Url chk ''mysite.com'' None True) = Some False
   \<and> map_option is_valid (Url chk ''mysite.com/about//here'' None True) = Some False
   \<and> map_option is_valid (Url chk ''https://mysite.com/here/../there'' None True) = Some False"
proof (intro conjI)
  show "is_valid u \<longleftrightarrow>
      prefix ''http'' (get_basic_url u) \<and> \<not> sublist ''/../'' (get_basic_url u)
        \<and> fullmatch default_regex (get_basic_url u)"
    by (simp add: is_valid_def is_valid_rx_def Let_def startswith_prefix contains_sublist)
  show "map_option is_valid (Url chk ''mysite.com'' None True) = Some False"
    by code_simp
  show "map_option is_valid (Url chk ''mysite.com/about//here'' None True) = Some False"
    by code_simp
  show "map_option is_valid (Url chk ''https://mysite.com/here/../there'' None True) = Some False"
    by code_simp
qed


section \<open>The constructor\<close>

lemma domain_refactor_ending [simp]: "domain (refactor_ending s) = domain s"
  and www_refactor_ending [simp]: "www (refactor_ending s) = www s"
  by (simp_all add: refactor_ending_def Let_def)

lemma domain_refactor_path [simp]: "domain (refactor_path s) = domain s"
  and www_refactor_path [simp]: "www (refactor_path s) = www s"
  by (simp_all add: refactor_path_def Let_def)

lemma domain_refactor_root [simp]: "domain (refactor_root_attributes s) = domain s"
  and www_refactor_root [simp]: "www (refactor_root_attributes s) = www s"
  by (simp_all add: refactor_root_attributes_def Let_def)

lemma Url_SomeD:
  assumes "Url chk u parent upp = Some x"
  obtains info where "get_url_info chk u = Some info"
    "x = refactor_root_attributes (refactor_attributes (init_attributes u parent upp info))"
  using assms by (auto simp: Url_def split: option.splits)

lemma get_url_info_SomeD:
  assumes "get_url_info chk u = Some (pr, w, d, p, f)"
  obtains netloc pth params q where
    "urlparse chk u = Some (pr, netloc, pth, params, q, f)"
    "w = prefix ''www.'' netloc"
    "d = (if prefix ''www.'' netloc then drop 4 netloc else netloc)"
    "p = (if q = [] then pth else pth @ ''?'' @ q)"
  using assms
  by (auto simp: get_url_info_def startswith_prefix split: option.splits prod.splits if_splits)

lemma domain_refactor_attributes:
  "domain (refactor_attributes s) = (if domain s = [] then parent_domain s else domain s)"
  by (simp add: refactor_attributes_def Let_def split: option.splits)

lemma www_refactor_attributes:
  "www (refactor_attributes s) =
     (if (domain s = [] \<or> domain s = parent_domain s) \<and> \<not> www s
      then (case parent_www s of Some pw \<Rightarrow> pw | None \<Rightarrow> www s)
      else www s)"
  by (simp add: refactor_attributes_def Let_def split: option.splits)

text \<open>
  C8, as amended: for every input string, \<^verbatim>\<open>get_url_info\<close> returns as domain the network
  location the parser returns, as written (its case is kept), without its prefix \<^verbatim>\<open>www.\<close>
  when it has one, and as \<^verbatim>\<open>www\<close> whether it had that prefix. The \<open>domain\<close> field of the
  constructed Url is that text, or the parent's domain when that text is empty and a parent
  is given; its \<open>www\<close> field is that flag, or the parent's \<open>www\<close> when the flag is false, a
  parent is given and that text is empty or equal to the parent's domain.
\<close>

theorem Url_domain_is_netloc:
  assumes "Url chk u parent upp = Some x"
  shows "\<exists>pr netloc pth params q f w d p.
           urlparse chk u = Some (pr, netloc, pth, params, q, f)
         \<and> get_url_info chk u = Some (pr, w, d, p, f)
         \<and> w = prefix ''www.'' netloc
         \<and> d = (if prefix ''www.'' netloc then drop 4 netloc else netloc)
         \<and> netloc = (if w then ''www.'' @ d else d)
         \<and> domain x = (if d = [] then (case parent of None \<Rightarrow> [] | Some pu \<Rightarrow> domain pu) else d)
         \<and> www x = (case parent of
                       None \<Rightarrow> w
                     | Some pu \<Rightarrow> (if (d = [] \<or> d = domain pu) \<and> \<not> w then www pu else w))"
proof -
  from assms obtain info where i: "get_url_info chk u = Some info"
    and x: "x = refactor_root_attributes (refactor_attributes (init_attributes u parent upp info))"
    by (rule Url_SomeD)
  obtain pr w d p f where info: "info = (pr, w, d, p, f)" by (cases info) auto
  from i info obtain netloc pth params q where
    pa: "urlparse chk u = Some (pr, netloc, pth, params, q, f)" and
    w: "w = prefix ''www.'' netloc" and
    d: "d = (if prefix ''www.'' netloc then drop 4 netloc else netloc)"
    by (auto elim: get_url_info_SomeD)
  have gi: "get_url_info chk u = Some (pr, w, d, p, f)" using i info by simp
  have n: "netloc = (if w then ''www.'' @ d else d)"
  proof (cases "prefix ''www.'' netloc")
    case True
    then obtain r where "netloc = ''www.'' @ r" by (auto simp: prefix_def)
    with w d show ?thesis by simp
  next
    case False
    with w d show ?thesis by simp
  qed
  have dx: "domain x = (if d = [] then (case parent of None \<Rightarrow> [] | Some pu \<Rightarrow> domain pu) else d)"
    unfolding x info
    by (simp add: domain_refactor_attributes init_attributes_def split: option.splits)
  have wx: "www x = (case parent of
                       None \<Rightarrow> w
                     | Some pu \<Rightarrow> (if (d = [] \<or> d = domain pu) \<and> \<not> w then www pu else w))"
    unfolding x info
    by (simp add: www_refactor_attributes init_attributes_def split: option.splits)
  show ?thesis
    by (intro exI [of _ pr] exI [of _ netloc] exI [of _ pth] exI [of _ params] exI [of _ q]
        exI [of _ f] exI [of _ w] exI [of _ d] exI [of _ p] conjI pa gi w d n dx wx)
qed

theorem Url_domain_is_netloc_witness:
  "\<exists>parent x.
       Url (\<lambda>_. True) ''http://www.this.that.here'' None True = Some parent
     \<and> Url (\<lambda>_. True) ''http://this.that.here/path/#fragment'' (Some parent) True = Some x
     \<and> (\<exists>pr netloc pth params q f w d p.
           urlparse (\<lambda>_. True) ''http://this.that.here/path/#fragment''
             = Some (pr, netloc, pth, params, q, f)
         \<and> get_url_info (\<lambda>_. True) ''http://this.that.here/path/#fragment'' = Some (pr, w, d, p, f)
         \<and> w = prefix ''www.'' netloc
         \<and> d = (if prefix ''www.'' netloc then drop 4 netloc else netloc)
         \<and> netloc = (if w then ''www.'' @ d else d)
         \<and> domain x = (if d = [] then (case Some parent of None \<Rightarrow> [] | Some pu \<Rightarrow> domain pu)
                        else d)
         \<and> www x = (case Some parent of
                       None \<Rightarrow> w
                     | Some pu \<Rightarrow> (if (d = [] \<or> d = domain pu) \<and> \<not> w then www pu else w)))
     \<and> domain x = ''this.that.here'' \<and> www x"
proof -
  have "Url (\<lambda>_. True) ''http://www.this.that.here'' None True \<noteq> None" by code_simp
  then obtain parent where
    p: "Url (\<lambda>_. True) ''http://www.this.that.here'' None True = Some parent" by blast
  have "map_option (\<lambda>x. (domain x, www x))
          (Url (\<lambda>_. True) ''http://this.that.here/path/#fragment''
             (Url (\<lambda>_. True) ''http://www.this.that.here'' None True) True)
        = Some (''this.that.here'', True)"
    by code_simp
  then obtain x where
    x: "Url (\<lambda>_. True) ''http://this.that.here/path/#fragment'' (Some parent) True = Some x"
    and dx: "domain x = ''this.that.here''" and wx: "www x"
    unfolding p by auto
  show ?thesis
    by (intro exI [of _ parent] exI [of _ x] conjI p x Url_domain_is_netloc [OF x] dx wx)
qed


text \<open>
  The claim as stated fails: the host is not lower-cased, and only one prefix \<^verbatim>\<open>www.\<close>
  is removed.
\<close>

theorem Url_domain_counterexample:
  "\<exists>x. Url (\<lambda>_. True) ''http://www.www.MySite.com'' None True = Some x
       \<and> www x \<and> domain x = ''www.MySite.com''
       \<and> startswith (domain x) ''www.'' \<and> list_ex ascii_upper (domain x)"
proof -
  have "map_option (\<lambda>x. (www x, domain x))
          (Url (\<lambda>_. True) ''http://www.www.MySite.com'' None True)
        = Some (True, ''www.MySite.com'')"
    by code_simp
  then obtain x where
    x: "Url (\<lambda>_. True) ''http://www.www.MySite.com'' None True = Some x"
    and w: "www x" and d: "domain x = ''www.MySite.com''"
    by auto
  have "startswith ''www.MySite.com'' ''www.''" by code_simp
  moreover have "list_ex ascii_upper ''www.MySite.com''" by code_simp
  ultimately show ?thesis using x w d by auto
qed

section \<open>Normalisation of paths\<close>

lemma replace_slashes_fix_iff: "replace_slashes s = s \<longleftrightarrow> \<not> contains s ''//''"
proof (induction s rule: replace_slashes.induct)
  case (1 c d r)
  show ?case
  proof (cases "c = CHR ''/'' \<and> d = CHR ''/''")
    case True
    have "length (replace_slashes r) \<le> length r" by (rule length_replace_slashes_le)
    then have "CHR ''/'' # replace_slashes r \<noteq> c # d # r"
      by (metis length_Cons not_less_eq_eq impossible_Cons list.inject)
    with True show ?thesis by (simp add: startswith_def)
  next
    case False
    with 1 show ?thesis by (auto simp: startswith_def)
  qed
qed (simp_all add: startswith_def)

lemma rcs_loop_fix:
  "f = replace_slashes p \<Longrightarrow> replace_slashes (rcs_loop p f) = rcs_loop p f"
proof (induction p f rule: rcs_loop.induct)
  case (1 p f)
  show ?case
  proof (cases "f = p")
    case True
    with 1 show ?thesis by simp
  next
    case False
    then have eq: "rcs_loop p f = rcs_loop f (replace_slashes f)"
      by (subst rcs_loop.simps) simp
    from False have "replace_slashes (rcs_loop f (replace_slashes f))
        = rcs_loop f (replace_slashes f)"
      by (rule "1.IH") simp
    then show ?thesis by (simp only: eq)
  qed
qed

lemma remove_consecutive_slashes_no_dslash:
  "\<not> contains (remove_consecutive_slashes s) ''//''"
  using rcs_loop_fix [of "replace_slashes s" s]
  by (simp add: remove_consecutive_slashes_def replace_slashes_fix_iff)

lemma refactor_normalized: "normalized (refactor t)"
proof -
  define t1 where "t1 = (if contains t ''//'' then remove_consecutive_slashes t else t)"
  define t2 where "t2 = (if t1 = ''/'' then [] else t1)"
  have r: "refactor t = (if suffix ''/'' t2 then butlast t2 else t2)"
    by (simp add: refactor_def t1_def t2_def endswith_suffix Let_def)
  have n1: "\<not> sublist ''//'' t1"
    using remove_consecutive_slashes_no_dslash [of t]
    by (auto simp: t1_def contains_sublist)
  then have n2: "\<not> sublist ''//'' t2" by (simp add: t2_def)
  show ?thesis
  proof (cases "suffix ''/'' t2")
    case False
    with r n2 show ?thesis by (simp add: normalized_def)
  next
    case True
    then obtain b where b: "t2 = b @ ''/''" by (auto simp: suffix_def)
    have "\<not> suffix ''/'' b"
    proof
      assume "suffix ''/'' b"
      then obtain a where "b = a @ ''/''" by (auto simp: suffix_def)
      with b have "t2 = a @ ''//'' @ []" by simp
      then have "sublist ''//'' t2" unfolding sublist_def by blast
      with n2 show False by simp
    qed
    moreover have "\<not> sublist ''//'' b"
      using n2 b by (metis sublist_appendI sublist_order.order.trans prefix_imp_sublist prefixI)
    ultimately show ?thesis using r True b by (simp add: normalized_def)
  qed
qed

lemma refactor_fix: "normalized t \<Longrightarrow> refactor t = t"
  by (auto simp: refactor_def normalized_def contains_sublist endswith_suffix Let_def)

lemma refactor_Nil [simp]: "refactor [] = []"
  by (simp add: refactor_def endswith_def Let_def)

lemma refactor_slash [simp]: "refactor ''/'' = []"
  by (simp add: refactor_def endswith_def startswith_def Let_def)

lemma refactor_append_slash:
  assumes "normalized t"
  shows "refactor (t @ ''/'') = t"
proof (cases "t = []")
  case True
  then show ?thesis by simp
next
  case False
  have "\<not> sublist ''//'' (t @ ''/'')"
  proof
    assume "sublist ''//'' (t @ ''/'')"
    then obtain a b where ab: "t @ ''/'' = a @ ''//'' @ b" by (auto simp: sublist_def)
    show False
    proof (cases b rule: rev_cases)
      case Nil
      with ab have "t = a @ ''/''" by simp
      with assms show False by (simp add: normalized_def suffix_def)
    next
      case (snoc b' c)
      with ab have "t = a @ ''//'' @ b'" by simp
      with assms show False by (auto simp: normalized_def sublist_def)
    qed
  qed
  moreover from False have "t @ ''/'' \<noteq> ''/''" by simp
  ultimately show ?thesis
    by (simp add: refactor_def contains_sublist endswith_suffix Let_def)
qed

lemma path_refactor_ending: "path (refactor_ending s) = refactor (path s)"
  by (simp add: refactor_ending_def Let_def)

lemma path_refactor_root [simp]: "path (refactor_root_attributes s) = path s"
  by (simp add: refactor_root_attributes_def Let_def)

lemma Url_path_normalized:
  assumes "Url chk u parent upp = Some x"
  shows "normalized (path x)"
proof -
  from assms obtain info where
    "x = refactor_root_attributes (refactor_attributes (init_attributes u parent upp info))"
    by (rule Url_SomeD)
  then show ?thesis
    by (simp add: refactor_attributes_def path_refactor_ending refactor_normalized Let_def)
qed

section \<open>Path resolution against the parent\<close>

lemma startswith_Cons: "startswith s (c # p) \<longleftrightarrow> (\<exists>r. s = c # r \<and> startswith r p)"
  by (cases s) (auto simp: startswith_def)

lemma startswith_Nil [simp]: "startswith s []"
  by (simp add: startswith_def)

lemma get_url_info_hash:
  assumes "startswith u ''#''"
  shows "get_url_info chk u = Some ([], False, [], [], drop 1 (filter (\<lambda>c. \<not> unsafe_url_byte c) u))"
proof -
  from assms obtain r where u: "u = CHR ''#'' # r" by (auto simp: startswith_Cons)
  show ?thesis
    unfolding u
    by (simp add: get_url_info_def urlparse_def urlsplit_def split_scheme_def Let_def
        whatwg_c0_control_or_space_def unsafe_url_byte_def ascii_alpha_def netloc_ok_def
        split_first_def startswith_def uses_params_def)
qed

lemma get_url_info_dot_hash:
  assumes "startswith u ''./#''"
  shows "get_url_info chk u = Some ([], False, [], ''./'', drop 3 (filter (\<lambda>c. \<not> unsafe_url_byte c) u))"
proof -
  from assms obtain r where u: "u = CHR ''.'' # CHR ''/'' # CHR ''#'' # r"
    by (auto simp: startswith_Cons)
  show ?thesis
    unfolding u
    by (simp add: get_url_info_def urlparse_def urlsplit_def split_scheme_def Let_def
        whatwg_c0_control_or_space_def unsafe_url_byte_def ascii_alpha_def netloc_ok_def
        split_first_def startswith_def uses_params_def)
qed


lemma path_refactor_path:
  "path (refactor_path s) =
     (if parent_path s \<noteq> [] \<and>
         (startswith (string_url s) ''#'' \<or> startswith (string_url s) ''./#'')
      then parent_path s
      else if startswith (path s) ''./'' then parent_path s @ drop 1 (path s)
      else if path s \<noteq> [] \<and> \<not> startswith (path s) ''/'' then parent_path s @ ''/'' @ path s
      else path s)"
  by (simp add: refactor_path_def Let_def)

lemma Url_path_same_site:
  assumes info: "get_url_info chk u = Some (pr, w, d, pth, f)"
    and site: "d = [] \<or> d = domain parent"
    and x: "Url chk u (Some parent) upp = Some x"
  shows "path x = refactor
     (if path parent \<noteq> [] \<and> (startswith u ''#'' \<or> startswith u ''./#'') then path parent
      else if startswith pth ''./'' then path parent @ drop 1 pth
      else if pth \<noteq> [] \<and> \<not> startswith pth ''/'' then path parent @ ''/'' @ pth
      else pth)"
proof -
  from x info have
    "x = refactor_root_attributes (refactor_attributes
           (init_attributes u (Some parent) upp (pr, w, d, pth, f)))"
    by (auto elim: Url_SomeD)
  with site show ?thesis
    by (auto simp: refactor_attributes_def init_attributes_def path_refactor_ending
        path_refactor_path Let_def)
qed

text \<open>
  C1: for a Url constructed with a parent (itself a constructed Url) whose site it belongs
  to, the path is resolved by these rules, and the resolved path is then normalised by
  \<^verbatim>\<open>_refactor_ending\<close> (the function \<open>refactor\<close>): a parsed path that begins with
  \<^verbatim>\<open>./\<close> becomes the parent's path followed by the path without its first character; a
  non-empty path that begins neither with \<^verbatim>\<open>./\<close> nor with \<^verbatim>\<open>/\<close> becomes the parent's path,
  a slash and the path; a path that begins with \<^verbatim>\<open>/\<close> is kept; a raw input that starts
  with \<^verbatim>\<open>#\<close> or \<^verbatim>\<open>./#\<close> keeps the parent's path. In particular
  \<^verbatim>\<open>Url("./test2", parent=Url("http://www.mysite.com/test"))\<close> has the basic url
  \<^verbatim>\<open>http://mysite.com/test/test2\<close>.
\<close>

theorem Url_path_resolution:
  assumes parent: "Url chk ps pparent pupp = Some parent"
    and info: "get_url_info chk u = Some (pr, w, d, pth, f)"
    and site: "d = [] \<or> d = domain parent"
    and x: "Url chk u (Some parent) upp = Some x"
  shows "(startswith pth ''./'' \<longrightarrow> path x = refactor (path parent @ drop 1 pth))
       \<and> (pth \<noteq> [] \<and> \<not> startswith pth ''./'' \<and> \<not> startswith pth ''/''
            \<longrightarrow> path x = refactor (path parent @ ''/'' @ pth))
       \<and> (startswith pth ''/'' \<longrightarrow> path x = refactor pth)
       \<and> (startswith u ''#'' \<or> startswith u ''./#'' \<longrightarrow> path x = path parent)
       \<and> map_option get_basic_url
            (Url chk ''./test2'' (Url chk ''http://www.mysite.com/test'' None True) True)
          = Some ''http://mysite.com/test/test2''"
proof -
  note px = Url_path_same_site [OF info site x]
  have np: "normalized (path parent)" using parent by (rule Url_path_normalized)
  have frag: "path x = path parent" if fr: "startswith u ''#'' \<or> startswith u ''./#''"
  proof (cases "path parent = []")
    case False
    with px fr np show ?thesis by (simp add: refactor_fix)
  next
    case True
    from fr show ?thesis
    proof
      assume "startswith u ''#''"
      with info have "pth = []" by (simp add: get_url_info_hash)
      with px True show ?thesis by (simp add: startswith_def)
    next
      assume "startswith u ''./#''"
      with info have "pth = ''./''" by (simp add: get_url_info_dot_hash)
      with px True show ?thesis by (simp add: startswith_def)
    qed
  qed
  have r1: "path x = refactor (path parent @ drop 1 pth)" if dot: "startswith pth ''./''"
  proof (cases "path parent \<noteq> [] \<and> (startswith u ''#'' \<or> startswith u ''./#'')")
    case False
    with px dot show ?thesis by auto
  next
    case True
    then have fr: "startswith u ''#'' \<or> startswith u ''./#''" by simp
    have "pth = ''./''"
    proof (cases "startswith u ''#''")
      case True
      with info have "pth = []" by (simp add: get_url_info_hash)
      with dot show ?thesis by (simp add: startswith_def)
    next
      case False
      with fr info show ?thesis by (simp add: get_url_info_dot_hash)
    qed
    with frag [OF fr] np show ?thesis by (simp add: refactor_append_slash)
  qed
  have r2: "path x = refactor (path parent @ ''/'' @ pth)"
    if a: "pth \<noteq> [] \<and> \<not> startswith pth ''./'' \<and> \<not> startswith pth ''/''"
  proof (cases "startswith u ''#'' \<or> startswith u ''./#''")
    case False
    with px a show ?thesis by auto
  next
    case True
    with info have "pth = [] \<or> pth = ''./''"
      by (auto simp: get_url_info_hash get_url_info_dot_hash)
    with a show ?thesis by (auto simp: startswith_def)
  qed
  have r3: "path x = refactor pth" if a: "startswith pth ''/''"
  proof (cases "startswith u ''#'' \<or> startswith u ''./#''")
    case False
    from a have "\<not> startswith pth ''./''" by (auto simp: startswith_Cons)
    with False px a show ?thesis by auto
  next
    case True
    with info have "pth = [] \<or> pth = ''./''"
      by (auto simp: get_url_info_hash get_url_info_dot_hash)
    with a show ?thesis by (auto simp: startswith_def)
  qed
  have ex: "map_option get_basic_url
            (Url chk ''./test2'' (Url chk ''http://www.mysite.com/test'' None True) True)
          = Some ''http://mysite.com/test/test2''"
    by code_simp
  from frag r1 r2 r3 ex show ?thesis by blast
qed

theorem Url_path_resolution_witness:
  "\<exists>parent x.
      Url (\<lambda>_. True) ''http://www.mysite.com/test'' None True = Some parent
    \<and> get_url_info (\<lambda>_. True) ''./test2'' = Some ([], False, [], ''./test2'', [])
    \<and> Url (\<lambda>_. True) ''./test2'' (Some parent) True = Some x
    \<and> startswith ''./test2'' ''./''
    \<and> path parent = ''/test''
    \<and> path x = refactor (path parent @ drop 1 ''./test2'')
    \<and> path x = ''/test/test2''"
proof -
  have "map_option path (Url (\<lambda>_. True) ''http://www.mysite.com/test'' None True) = Some ''/test''"
    by code_simp
  then obtain parent where
    p: "Url (\<lambda>_. True) ''http://www.mysite.com/test'' None True = Some parent"
    and pp: "path parent = ''/test''" by auto
  have i: "get_url_info (\<lambda>_. True) ''./test2'' = Some ([], False, [], ''./test2'', [])"
    by code_simp
  have "Url (\<lambda>_. True) ''./test2'' (Url (\<lambda>_. True) ''http://www.mysite.com/test'' None True) True
          \<noteq> None"
    by code_simp
  then obtain x where x: "Url (\<lambda>_. True) ''./test2'' (Some parent) True = Some x"
    unfolding p by blast
  have s: "startswith ''./test2'' ''./''" by code_simp
  have r: "refactor (''/test'' @ drop 1 ''./test2'') = ''/test/test2''" by code_simp
  from Url_path_resolution [OF p i _ x] s
  have "path x = refactor (path parent @ drop 1 ''./test2'')" by blast
  with p i x s pp r show ?thesis by auto
qed

section \<open>Extraction of links in regex mode\<close>

lemma set_UrlSet_add: "set (map fst (UrlSet_add items u)) = insert (get_basic_url u) (set (map fst items))"
  by (auto simp: UrlSet_add_def Let_def)

lemma set_foldl_UrlSet_add:
  "set (map fst (foldl UrlSet_add items us)) = set (map fst items) \<union> set (map get_basic_url us)"
  by (induction us arbitrary: items) (auto simp: set_UrlSet_add simp del: set_map)

lemma set_UrlSet_keys: "set (UrlSet_keys (UrlSet us)) = set (map get_basic_url us)"
  using set_foldl_UrlSet_add [of "[]" us] by (simp add: UrlSet_keys_def UrlSet_def)

lemma filter_upt_Suc:
  "filter P [0..<Suc n] = (if P 0 then [0] else []) @ map Suc (filter (\<lambda>j. P (Suc j)) [0..<n])"
proof -
  have "[0..<Suc n] = 0 # map Suc [0..<n]"
    by (simp add: upt_conv_Cons map_Suc_upt del: upt_Suc)
  then show ?thesis by (simp add: filter_map comp_def del: upt_Suc)
qed

lemma append_matches_dedup:
  assumes "append_matches ext self parent urls ms = Some r"
  shows "\<exists>cs. construct_urls ext self parent ms = Some cs
           \<and> r = urls @ map (\<lambda>i. cs ! i)
                   (filter (\<lambda>i. get_basic_url (cs ! i) \<notin>
                                  set (map get_basic_url urls) \<union> set (map get_basic_url (take i cs)))
                      [0..<length cs])"
  using assms
proof (induction ms arbitrary: urls r)
  case Nil
  then show ?case by simp
next
  case (Cons m ms)
  from Cons.prems obtain c where
    c: "Url (check_bracketed_host ext) m (Some parent) (assume_parent_protocol self) = Some c"
    by (auto split: option.splits)
  define urls' where
    "urls' = (if get_basic_url c \<notin> set (map get_basic_url urls) then urls @ [c] else urls)"
  from Cons.prems c have "append_matches ext self parent urls' ms = Some r"
    by (simp add: urls'_def set_UrlSet_keys)
  from Cons.IH [OF this] obtain cs where
    cs: "construct_urls ext self parent ms = Some cs" and
    r: "r = urls' @ map (\<lambda>i. cs ! i)
                   (filter (\<lambda>i. get_basic_url (cs ! i) \<notin>
                                  set (map get_basic_url urls') \<union> set (map get_basic_url (take i cs)))
                      [0..<length cs])"
    by blast
  have k: "set (map get_basic_url urls') = insert (get_basic_url c) (set (map get_basic_url urls))"
    by (auto simp: urls'_def)
  have "construct_urls ext self parent (m # ms) = Some (c # cs)"
    using c cs by simp
  moreover have "r = urls @ map (\<lambda>i. (c # cs) ! i)
                   (filter (\<lambda>i. get_basic_url ((c # cs) ! i) \<notin>
                                  set (map get_basic_url urls) \<union> set (map get_basic_url (take i (c # cs))))
                      [0..<length (c # cs)])"
    unfolding r k
    by (simp add: filter_upt_Suc urls'_def comp_def conj_ac del: upt_Suc set_map)
  ultimately show ?case by blast
qed


text \<open>
  C9, as amended: in regex mode the links of a page are the anchor-derived Urls followed
  by the regex matches that are appended; the match at position \<open>i\<close> is appended exactly when
  its basic url is neither among the basic urls of the anchor-derived links nor among the
  basic urls of the matches before it. The domain filter is applied to the whole list.
\<close>

theorem regex_matches_appended:
  assumes "regex_search self"
    and "get_urls_from_text ext self html_text parent = Some r"
  shows "\<exists>anchors cs.
           construct_urls ext self parent (find_all_hrefs ext html_text) = Some anchors
         \<and> construct_urls ext self parent (finditer_default ext html_text) = Some cs
         \<and> r = (if domain_filter self then filter (\<lambda>u. domain (url self) = domain u) else id)
                 (anchors @ map (\<lambda>i. cs ! i)
                   (filter (\<lambda>i. get_basic_url (cs ! i) \<notin>
                              set (map get_basic_url anchors) \<union> set (map get_basic_url (take i cs)))
                      [0..<length cs]))"
proof -
  from assms obtain anchors urls' where
    a: "construct_urls ext self parent (find_all_hrefs ext html_text) = Some anchors" and
    m: "append_matches ext self parent anchors (finditer_default ext html_text) = Some urls'" and
    r: "r = (if domain_filter self then filter (\<lambda>u. domain (url self) = domain u) urls' else urls')"
    by (auto simp: get_urls_from_text_def split: option.splits)
  from append_matches_dedup [OF m] obtain cs where
    "construct_urls ext self parent (finditer_default ext html_text) = Some cs"
    "urls' = anchors @ map (\<lambda>i. cs ! i)
                   (filter (\<lambda>i. get_basic_url (cs ! i) \<notin>
                              set (map get_basic_url anchors) \<union> set (map get_basic_url (take i cs)))
                      [0..<length cs])"
    by blast
  with a r show ?thesis by auto
qed

lemma Url_mysite_root: "Url (\<lambda>_. True) ''https://mysite.com'' None True = Some mysite_root"
  unfolding mysite_root_def by code_simp

lemma mysite_links:
  "map_option (map get_basic_url)
     (get_urls_from_text mysite_externals (mysite_crawler md) [] mysite_root)
   = Some [''https://mysite.com/a'', ''https://mysite.com/content'']"
  unfolding mysite_root_def mysite_externals_def mysite_crawler_def by code_simp

lemma mysite_anchors:
  "map_option (map get_basic_url)
     (construct_urls mysite_externals (mysite_crawler md) mysite_root [''/a''])
   = Some [''https://mysite.com/a'']"
  unfolding mysite_root_def mysite_externals_def mysite_crawler_def by code_simp

lemma mysite_matches:
  "map_option (map get_basic_url)
     (construct_urls mysite_externals (mysite_crawler md) mysite_root
        [''https://mysite.com/content'', ''https://mysite.com/content''])
   = Some [''https://mysite.com/content'', ''https://mysite.com/content'']"
  unfolding mysite_root_def mysite_externals_def mysite_crawler_def by code_simp

theorem regex_matches_appended_witness:
  "\<exists>r anchors cs.
      regex_search (mysite_crawler None)
    \<and> get_urls_from_text mysite_externals (mysite_crawler None) [] mysite_root = Some r
    \<and> construct_urls mysite_externals (mysite_crawler None) mysite_root
         (find_all_hrefs mysite_externals []) = Some anchors
    \<and> construct_urls mysite_externals (mysite_crawler None) mysite_root
         (finditer_default mysite_externals []) = Some cs
    \<and> r = (if domain_filter (mysite_crawler None)
            then filter (\<lambda>u. domain (url (mysite_crawler None)) = domain u) else id)
             (anchors @ map (\<lambda>i. cs ! i)
                (filter (\<lambda>i. get_basic_url (cs ! i) \<notin>
                           set (map get_basic_url anchors) \<union> set (map get_basic_url (take i cs)))
                   [0..<length cs]))
    \<and> map get_basic_url r = [''https://mysite.com/a'', ''https://mysite.com/content'']"
proof -
  have s: "regex_search (mysite_crawler None)" by (simp add: mysite_crawler_def)
  from mysite_links [of None] obtain r where
    r: "get_urls_from_text mysite_externals (mysite_crawler None) [] mysite_root = Some r"
    and k: "map get_basic_url r = [''https://mysite.com/a'', ''https://mysite.com/content'']"
    by auto
  from regex_matches_appended [OF s r] obtain anchors cs where
    a: "construct_urls mysite_externals (mysite_crawler None) mysite_root
         (find_all_hrefs mysite_externals []) = Some anchors" and
    c: "construct_urls mysite_externals (mysite_crawler None) mysite_root
         (finditer_default mysite_externals []) = Some cs" and
    e: "r = (if domain_filter (mysite_crawler None)
            then filter (\<lambda>u. domain (url (mysite_crawler None)) = domain u) else id)
             (anchors @ map (\<lambda>i. cs ! i)
                (filter (\<lambda>i. get_basic_url (cs ! i) \<notin>
                           set (map get_basic_url anchors) \<union> set (map get_basic_url (take i cs)))
                   [0..<length cs]))"
    by blast
  show ?thesis
    by (intro exI [of _ r] exI [of _ anchors] exI [of _ cs] conjI s r a c e k)
qed

text \<open>
  The claim as stated fails: the second of two matches with the same basic url is not
  appended, although that basic url is not among those of the anchor-derived links.
\<close>

theorem regex_matches_counterexample:
  "find_all_hrefs mysite_externals [] = [''/a'']
   \<and> finditer_default mysite_externals []
       = [''https://mysite.com/content'', ''https://mysite.com/content'']
   \<and> map_option (map get_basic_url)
       (construct_urls mysite_externals (mysite_crawler None) mysite_root [''/a''])
       = Some [''https://mysite.com/a'']
   \<and> map_option (map get_basic_url)
       (construct_urls mysite_externals (mysite_crawler None) mysite_root
          [''https://mysite.com/content'', ''https://mysite.com/content''])
       = Some [''https://mysite.com/content'', ''https://mysite.com/content'']
   \<and> map_option (map get_basic_url)
       (get_urls_from_text mysite_externals (mysite_crawler None) [] mysite_root)
       = Some [''https://mysite.com/a'', ''https://mysite.com/content'']"
  using mysite_links [of None] mysite_anchors [of None] mysite_matches [of None]
  by (simp add: mysite_externals_def)

section \<open>Fetching with retries\<close>

lemma requests_simps [simp]:
  "requests [] = 0"
  "requests (Request b # tr) = Suc (requests tr)"
  "requests (Sleep t # tr) = requests tr"
  "requests (tr @ tr') = requests tr + requests tr'"
  "requests (sleep_if_positive t) = 0"
  by (simp_all add: requests_def sleep_if_positive_def)

lemma get_urls_decode:
  "transport r = UnicodeDecodeError \<Longrightarrow>
   get_urls ext self transport u r = (Some [], [Request (get_basic_url u)])"
  by (subst get_urls.simps) simp

lemma get_urls_exhausted:
  "transport r = OtherException \<Longrightarrow> \<not> r < max_retries self \<Longrightarrow>
   get_urls ext self transport u r = (Some [], [Request (get_basic_url u)])"
  by (subst get_urls.simps) simp

lemma get_urls_retry:
  "transport r = OtherException \<Longrightarrow> r < max_retries self \<Longrightarrow> r < int (recursion_limit ext) \<Longrightarrow>
   get_urls ext self transport u r =
     (fst (get_urls ext self transport u (r + 1)),
      Request (get_basic_url u) # sleep_if_positive (sleep_between_retries self)
        @ snd (get_urls ext self transport u (r + 1)))"
  by (subst get_urls.simps) simp

lemma get_urls_overflow:
  "transport r = OtherException \<Longrightarrow> r < max_retries self \<Longrightarrow> int (recursion_limit ext) \<le> r \<Longrightarrow>
   get_urls ext self transport u r =
     (None, Request (get_basic_url u) # sleep_if_positive (sleep_between_retries self))"
  by (subst get_urls.simps) simp

lemma get_urls_requests:
  "r \<le> max_retries self \<Longrightarrow>
   int (requests (snd (get_urls ext self transport u r))) \<le> max_retries self - r + 1"
proof (induction ext self transport u r rule: get_urls.induct)
  case (1 ext self transport u retries)
  show ?case
  proof (cases "transport retries")
    case (Text t)
    with 1 show ?thesis
      by (subst get_urls.simps) (simp split: option.splits)
  next
    case UnicodeDecodeError
    with 1 show ?thesis by (simp add: get_urls_decode)
  next
    case OtherException
    show ?thesis
    proof (cases "retries < max_retries self")
      case True
      show ?thesis
      proof (cases "int (recursion_limit ext) \<le> retries")
        case False
        with 1 OtherException True have
          "int (requests (snd (get_urls ext self transport u (retries + 1))))
             \<le> max_retries self - (retries + 1) + 1"
          by simp
        with True False OtherException show ?thesis by (simp add: get_urls_retry)
      next
        case over: True
        with True OtherException show ?thesis by (simp add: get_urls_overflow)
      qed
    next
      case False
      with 1 OtherException show ?thesis by (simp add: get_urls_exhausted)
    qed
  qed
qed

lemma get_urls_None:
  "fst (get_urls ext self transport u r) = None \<Longrightarrow>
   (\<exists>i t. r \<le> i \<and> transport i = Text t \<and> get_urls_from_text ext self t u = None)
   \<or> (\<exists>i. r \<le> i \<and> int (recursion_limit ext) \<le> i \<and> i < max_retries self
            \<and> transport i = OtherException)"
proof (induction ext self transport u r rule: get_urls.induct)
  case (1 ext self transport u retries)
  show ?case
  proof (cases "transport retries")
    case (Text t)
    with "1.prems" have "get_urls_from_text ext self t u = None"
      by (subst (asm) get_urls.simps) (simp split: option.splits)
    with Text show ?thesis by blast
  next
    case UnicodeDecodeError
    with "1.prems" show ?thesis by (simp add: get_urls_decode)
  next
    case OtherException
    show ?thesis
    proof (cases "retries < max_retries self")
      case True
      show ?thesis
      proof (cases "int (recursion_limit ext) \<le> retries")
        case False
        with "1.prems" OtherException True
        have "fst (get_urls ext self transport u (retries + 1)) = None"
          by (simp add: get_urls_retry)
        with "1.IH" OtherException True False have
          "(\<exists>i t. retries + 1 \<le> i \<and> transport i = Text t \<and> get_urls_from_text ext self t u = None)
           \<or> (\<exists>i. retries + 1 \<le> i \<and> int (recursion_limit ext) \<le> i \<and> i < max_retries self
                  \<and> transport i = OtherException)"
          by simp
        then show ?thesis
        proof
          assume "\<exists>i t. retries + 1 \<le> i \<and> transport i = Text t
                    \<and> get_urls_from_text ext self t u = None"
          then obtain i t where "retries + 1 \<le> i" "transport i = Text t"
            "get_urls_from_text ext self t u = None" by blast
          then have "retries \<le> i \<and> transport i = Text t \<and> get_urls_from_text ext self t u = None"
            by simp
          then show ?thesis by blast
        next
          assume "\<exists>i. retries + 1 \<le> i \<and> int (recursion_limit ext) \<le> i \<and> i < max_retries self
                  \<and> transport i = OtherException"
          then obtain i where "retries + 1 \<le> i" "int (recursion_limit ext) \<le> i"
            "i < max_retries self" "transport i = OtherException" by blast
          then have "retries \<le> i \<and> int (recursion_limit ext) \<le> i \<and> i < max_retries self
                  \<and> transport i = OtherException" by simp
          then show ?thesis by blast
        qed
      next
        case over: True
        with True OtherException show ?thesis by blast
      qed
    next
      case False
      with "1.prems" OtherException show ?thesis by (simp add: get_urls_exhausted)
    qed
  qed
qed

lemma get_urls_fail:
  assumes "r \<le> k" "k \<le> max_retries self" "k \<le> int (recursion_limit ext)"
    and "\<forall>i. r \<le> i \<and> i < k \<longrightarrow> transport i = OtherException"
    and "transport k = UnicodeDecodeError \<or> (transport k = OtherException \<and> k = max_retries self)"
  shows "get_urls ext self transport u r =
           (Some [], concat (replicate (nat (k - r))
                        (Request (get_basic_url u) # sleep_if_positive (sleep_between_retries self)))
                      @ [Request (get_basic_url u)])"
  using assms
proof (induction "nat (k - r)" arbitrary: r)
  case 0
  then have "r = k" by simp
  with 0 show ?case by (auto simp: get_urls_decode get_urls_exhausted)
next
  case (Suc n)
  then have lt: "r < k" and n: "n = nat (k - (r + 1))" by linarith+
  with Suc.prems have o: "transport r = OtherException" and m: "r < max_retries self"
    and l: "r < int (recursion_limit ext)" by auto
  have "get_urls ext self transport u (r + 1) =
           (Some [], concat (replicate (nat (k - (r + 1)))
                        (Request (get_basic_url u) # sleep_if_positive (sleep_between_retries self)))
                      @ [Request (get_basic_url u)])"
    using n lt Suc.prems by (intro Suc.hyps) auto
  moreover have "nat (k - r) = Suc (nat (k - (r + 1)))" using lt by linarith
  ultimately show ?case using o m l by (simp add: get_urls_retry)
qed

lemma get_urls_recursion_error:
  assumes "r \<le> int (recursion_limit ext)" "int (recursion_limit ext) < max_retries self"
    and "\<forall>i. r \<le> i \<and> i \<le> int (recursion_limit ext) \<longrightarrow> transport i = OtherException"
  shows "get_urls ext self transport u r =
           (None, concat (replicate (Suc (nat (int (recursion_limit ext) - r)))
                     (Request (get_basic_url u) # sleep_if_positive (sleep_between_retries self))))"
  using assms
proof (induction "nat (int (recursion_limit ext) - r)" arbitrary: r)
  case 0
  then have "r = int (recursion_limit ext)" by simp
  with 0 show ?case by (simp add: get_urls_overflow)
next
  case (Suc n)
  then have lt: "r < int (recursion_limit ext)"
    and n: "n = nat (int (recursion_limit ext) - (r + 1))" by linarith+
  with Suc.prems have o: "transport r = OtherException" and m: "r < max_retries self" by auto
  have "get_urls ext self transport u (r + 1) =
           (None, concat (replicate (Suc (nat (int (recursion_limit ext) - (r + 1))))
                     (Request (get_basic_url u) # sleep_if_positive (sleep_between_retries self))))"
    using n lt Suc.prems by (intro Suc.hyps) auto
  moreover have "nat (int (recursion_limit ext) - r) = Suc (nat (int (recursion_limit ext) - (r + 1)))"
    using lt by linarith
  ultimately show ?case using o m lt by (simp add: get_urls_retry)
qed

text \<open>
  While \<^verbatim>\<open>max_retries\<close> does not exceed the recursion limit, \<^verbatim>\<open>_get_urls\<close> does what its
  documentation says: at most \<^verbatim>\<open>max_retries + 1\<close> requests; an exception leaves it only
  when the extraction of links from a fetched text raises; a decode failure returns the
  empty list without a retry; other failures are retried, with the sleep between the
  requests, and the failure of the last retry returns the empty list.
\<close>

lemma get_urls_within_limit:
  assumes "0 \<le> max_retries self" and "max_retries self \<le> int (recursion_limit ext)"
  shows "int (requests (snd (get_urls ext self transport u 0))) \<le> max_retries self + 1
       \<and> (fst (get_urls ext self transport u 0) = None \<longrightarrow>
            (\<exists>i t. transport i = Text t \<and> get_urls_from_text ext self t u = None))
       \<and> (\<forall>k. 0 \<le> k \<and> k \<le> max_retries self
              \<and> (\<forall>i. 0 \<le> i \<and> i < k \<longrightarrow> transport i = OtherException)
              \<and> (transport k = UnicodeDecodeError
                   \<or> (transport k = OtherException \<and> k = max_retries self))
            \<longrightarrow> get_urls ext self transport u 0 =
                  (Some [], concat (replicate (nat k)
                      (Request (get_basic_url u) # sleep_if_positive (sleep_between_retries self)))
                    @ [Request (get_basic_url u)]))"
proof (intro conjI allI impI)
  show "int (requests (snd (get_urls ext self transport u 0))) \<le> max_retries self + 1"
    using get_urls_requests [of 0 self ext transport u] assms by simp
next
  assume "fst (get_urls ext self transport u 0) = None"
  from get_urls_None [OF this] assms(2)
  show "\<exists>i t. transport i = Text t \<and> get_urls_from_text ext self t u = None"
    by auto
next
  fix k
  assume a: "0 \<le> k \<and> k \<le> max_retries self
              \<and> (\<forall>i. 0 \<le> i \<and> i < k \<longrightarrow> transport i = OtherException)
              \<and> (transport k = UnicodeDecodeError
                   \<or> (transport k = OtherException \<and> k = max_retries self))"
  then show "get_urls ext self transport u 0 =
                  (Some [], concat (replicate (nat k)
                      (Request (get_basic_url u) # sleep_if_positive (sleep_between_retries self)))
                    @ [Request (get_basic_url u)])"
    using get_urls_fail [of 0 k self ext transport u] assms(2) by simp
qed

text \<open>
  C3: the claim fails on the code when \<^verbatim>\<open>max_retries\<close> exceeds the recursion limit. With
  \<^verbatim>\<open>max_retries = 1000\<close>, 989 nested calls allowed and every request failing,
  \<^verbatim>\<open>_get_urls\<close> does not return the empty list after 1001 requests: an exception leaves it
  after 990 requests.
\<close>

theorem get_urls_recursion_error_at_1000:
  "max_retries persistent_crawler = 1000
   \<and> recursion_limit mysite_externals = 989
   \<and> fst (get_urls mysite_externals persistent_crawler (\<lambda>_. OtherException) mysite_root 0) = None
   \<and> requests (snd (get_urls mysite_externals persistent_crawler (\<lambda>_. OtherException)
                       mysite_root 0)) = 990"
proof -
  have m: "max_retries persistent_crawler = 1000"
    by (simp add: persistent_crawler_def mysite_crawler_def)
  have l: "recursion_limit mysite_externals = 989" by (simp add: mysite_externals_def)
  have rq: "requests (concat (replicate n (Request b # sleep_if_positive t))) = n" for n b t
    by (induction n) simp_all
  have "get_urls mysite_externals persistent_crawler (\<lambda>_. OtherException) mysite_root 0 =
           (None, concat (replicate (Suc (nat (int (recursion_limit mysite_externals) - 0)))
                     (Request (get_basic_url mysite_root)
                        # sleep_if_positive (sleep_between_retries persistent_crawler))))"
    by (rule get_urls_recursion_error) (simp_all add: m l)
  then show ?thesis by (simp add: m l rq)
qed


section \<open>The queue processor\<close>

lemma add_url_to_queue_fields [simp]:
  "crawled_urls (add_url_to_queue self depth st u) = crawled_urls st"
  "fetching (add_url_to_queue self depth st u) = fetching st"
  "crashed (add_url_to_queue self depth st u) = crashed st"
  by (simp_all add: add_url_to_queue_def put_nowait_def Let_def)

lemma foldl_add_url_fields [simp]:
  "crawled_urls (foldl (add_url_to_queue self depth) st us) = crawled_urls st"
  "fetching (foldl (add_url_to_queue self depth) st us) = fetching st"
  "crashed (foldl (add_url_to_queue self depth) st us) = crashed st"
  by (induction us arbitrary: st) simp_all

lemma add_urls_to_queue_fields [simp]:
  "crawled_urls (add_urls_to_queue self urls depth st) = crawled_urls st"
  "fetching (add_urls_to_queue self urls depth st) = fetching st"
  "crashed (add_urls_to_queue self urls depth st) = crashed st"
  by (simp_all add: add_urls_to_queue_def)

lemma task_done_fields [simp]:
  "crawled_urls (task_done st) = crawled_urls st"
  "fetching (task_done st) = fetching st"
  "queue (task_done st) = queue st"
  "crashed (task_done st) = crashed st"
  "unfinished_tasks (task_done st) = unfinished_tasks st - 1"
  by (simp_all add: task_done_def)

lemma finish_item_crawled_urls:
  "crawled_urls (finish_item self u depth got st) =
     (crawled_urls st)(get_basic_url u \<mapsto>
        map get_basic_url (filter (\<lambda>c. get_basic_url c \<noteq> get_basic_url u) got))"
  by (simp add: finish_item_def Let_def)

lemma finish_item_fetching:
  "fetching (finish_item self u depth got st) = remove1 (u, depth) (fetching st)"
  by (simp add: finish_item_def Let_def)

lemma foldl_add_url_queue:
  "\<exists>new. queue (foldl (add_url_to_queue self depth) st us) = queue st @ new
     \<and> (\<forall>(c, d') \<in> set new. d' = depth + 1 \<and> c \<in> set us \<and> domain c = domain (url self)
           \<and> get_basic_url c \<notin> dom (crawled_urls st) \<and> is_crawlable c)"
proof (induction us arbitrary: st)
  case Nil
  show ?case by simp
next
  case (Cons a us)
  define st1 where "st1 = add_url_to_queue self depth st a"
  obtain n1 where n1: "queue st1 = queue st @ n1"
    "\<forall>(c, d') \<in> set n1. d' = depth + 1 \<and> c = a \<and> domain c = domain (url self)
           \<and> get_basic_url c \<notin> dom (crawled_urls st) \<and> is_crawlable c"
    by (cases "domain a = domain (url self) \<and> get_basic_url a \<notin> dom (crawled_urls st) \<and> is_crawlable a")
      (auto simp: st1_def add_url_to_queue_def put_nowait_def Let_def)
  from Cons [of st1] obtain n2 where n2:
    "queue (foldl (add_url_to_queue self depth) st1 us) = queue st1 @ n2"
    "\<forall>(c, d') \<in> set n2. d' = depth + 1 \<and> c \<in> set us \<and> domain c = domain (url self)
           \<and> get_basic_url c \<notin> dom (crawled_urls st1) \<and> is_crawlable c"
    by blast
  have "queue (foldl (add_url_to_queue self depth) st (a # us)) = queue st @ (n1 @ n2)"
    using n1 n2 by (simp add: st1_def)
  moreover have "\<forall>(c, d') \<in> set (n1 @ n2). d' = depth + 1 \<and> c \<in> set (a # us)
           \<and> domain c = domain (url self)
           \<and> get_basic_url c \<notin> dom (crawled_urls st) \<and> is_crawlable c"
    using n1 n2 by (auto simp: st1_def)
  ultimately show ?case by blast
qed

lemma set_UrlSet_add_values: "set (map snd (UrlSet_add items u)) \<subseteq> insert u (set (map snd items))"
  by (auto simp: UrlSet_add_def Let_def)

lemma set_foldl_UrlSet_add_values:
  "set (map snd (foldl UrlSet_add items us)) \<subseteq> set (map snd items) \<union> set us"
proof (induction us arbitrary: items)
  case Nil
  show ?case by simp
next
  case (Cons a us)
  from Cons [of "UrlSet_add items a"] set_UrlSet_add_values [of items a]
  show ?case by auto
qed

lemma set_UrlSet_values: "set (UrlSet_values (UrlSet us)) \<subseteq> set us"
  using set_foldl_UrlSet_add_values [of "[]" us] by (simp add: UrlSet_values_def UrlSet_def)

lemma finish_item_queue:
  "\<exists>new. queue (finish_item self u depth got st) = queue st @ new
     \<and> (\<forall>(c, d') \<in> set new. d' = depth + 1
           \<and> (case max_depth self of None \<Rightarrow> True | Some m \<Rightarrow> depth < m)
           \<and> c \<in> set got \<and> get_basic_url c \<noteq> get_basic_url u
           \<and> domain c = domain (url self)
           \<and> get_basic_url c \<notin> dom (crawled_urls (finish_item self u depth got st))
           \<and> is_crawlable c)"
proof (cases "case max_depth self of None \<Rightarrow> True | Some m \<Rightarrow> depth < m")
  case False
  then have "queue (finish_item self u depth got st) = queue st @ []"
    by (simp add: finish_item_def Let_def)
  then show ?thesis by (intro exI [of _ "[]"]) simp
next
  case True
  define urls where "urls = filter (\<lambda>c. get_basic_url c \<noteq> get_basic_url u) got"
  define st1 where "st1 = st\<lparr>crawled_urls := (crawled_urls st)(get_basic_url u \<mapsto> map get_basic_url urls),
                   fetching := remove1 (u, depth) (fetching st)\<rparr>"
  have f: "finish_item self u depth got st
      = task_done (foldl (add_url_to_queue self depth) st1 (UrlSet_values (UrlSet urls)))"
    using True by (simp add: finish_item_def Let_def urls_def st1_def add_urls_to_queue_def)
  from foldl_add_url_queue [of self depth st1 "UrlSet_values (UrlSet urls)"]
  obtain new where new:
    "queue (foldl (add_url_to_queue self depth) st1 (UrlSet_values (UrlSet urls))) = queue st1 @ new"
    "\<forall>(c, d') \<in> set new. d' = depth + 1 \<and> c \<in> set (UrlSet_values (UrlSet urls))
        \<and> domain c = domain (url self)
        \<and> get_basic_url c \<notin> dom (crawled_urls st1) \<and> is_crawlable c"
    by blast
  have q: "queue (finish_item self u depth got st) = queue st @ new"
    using new(1) by (simp add: f st1_def)
  have c: "crawled_urls (finish_item self u depth got st) = crawled_urls st1"
    by (simp add: f)
  have "\<forall>(c, d') \<in> set new. d' = depth + 1
           \<and> (case max_depth self of None \<Rightarrow> True | Some m \<Rightarrow> depth < m)
           \<and> c \<in> set got \<and> get_basic_url c \<noteq> get_basic_url u
           \<and> domain c = domain (url self)
           \<and> get_basic_url c \<notin> dom (crawled_urls (finish_item self u depth got st))
           \<and> is_crawlable c"
    unfolding c using new(2) True set_UrlSet_values [of urls]
    by (auto simp: urls_def)
  with q show ?thesis by blast
qed


lemma distinct_map_remove1: "distinct (map f xs) \<Longrightarrow> distinct (map f (remove1 x xs))"
  by (induction xs) (auto simp: image_iff dest: notin_set_remove1)

lemma key_notin_remove1:
  assumes "distinct (map f xs)" "x \<in> set xs"
  shows "f x \<notin> f ` set (remove1 x xs)"
  using assms
proof (induction xs)
  case Nil
  then show ?case by simp
next
  case (Cons a xs)
  show ?case
  proof (cases "x = a")
    case True
    with Cons.prems show ?thesis by (auto simp: image_iff)
  next
    case False
    with Cons show ?thesis by (auto simp: image_iff)
  qed
qed

lemma image_remove1_subset: "f ` set (remove1 x xs) \<subseteq> f ` set xs"
  using set_remove1_subset by (rule image_mono)

lemma run_invariant:
  assumes "run ext self evs st"
  shows "(\<forall>(u, d) \<in> set (fetching st).
            get_basic_url u \<in> dom (crawled_urls st) \<and> Claim u d \<in> set evs)
       \<and> distinct (map (\<lambda>p. get_basic_url (fst p)) (fetching st))
       \<and> (\<forall>u d got. Done u d got \<in> set evs \<longrightarrow>
             get_basic_url u \<notin> (\<lambda>p. get_basic_url (fst p)) ` set (fetching st)
           \<and> crawled_urls st (get_basic_url u) = Some (recorded u got))"
  using assms
proof (induction rule: run.induct)
  case (run_start ext self)
  show ?case by (simp add: initial_def)
next
  case (run_next ext self evs st e st')
  then have I1: "\<forall>(u, d) \<in> set (fetching st).
            get_basic_url u \<in> dom (crawled_urls st) \<and> Claim u d \<in> set evs"
    and I2: "distinct (map (\<lambda>p. get_basic_url (fst p)) (fetching st))"
    and I3: "\<forall>u d got. Done u d got \<in> set evs \<longrightarrow>
             get_basic_url u \<notin> (\<lambda>p. get_basic_url (fst p)) ` set (fetching st)
           \<and> crawled_urls st (get_basic_url u) = Some (recorded u got)"
    by blast+
  from run_next.hyps(2) show ?case
  proof (cases rule: step.cases)
    case (step_skip u depth q)
    with I1 I2 I3 show ?thesis by auto
  next
    case (step_claim u depth q)
    have k: "get_basic_url u \<notin> (\<lambda>p. get_basic_url (fst p)) ` set (fetching st)"
      using I1 step_claim(5) by auto
    have f: "fetching st' = fetching st @ [(u, depth)]"
      and c: "crawled_urls st' = (crawled_urls st)(get_basic_url u \<mapsto> [])"
      using step_claim by simp_all
    have "\<forall>(v, d) \<in> set (fetching st').
            get_basic_url v \<in> dom (crawled_urls st') \<and> Claim v d \<in> set (evs @ [e])"
      using I1 step_claim(1) unfolding f c by auto
    moreover have "distinct (map (\<lambda>p. get_basic_url (fst p)) (fetching st'))"
      using I2 k unfolding f by auto
    moreover have "\<forall>v d got. Done v d got \<in> set (evs @ [e]) \<longrightarrow>
             get_basic_url v \<notin> (\<lambda>p. get_basic_url (fst p)) ` set (fetching st')
           \<and> crawled_urls st' (get_basic_url v) = Some (recorded v got)"
    proof (intro allI impI)
      fix v d got
      assume "Done v d got \<in> set (evs @ [e])"
      with step_claim(1) have d: "Done v d got \<in> set evs" by auto
      with I3 have n: "get_basic_url v \<notin> (\<lambda>p. get_basic_url (fst p)) ` set (fetching st)"
        and r: "crawled_urls st (get_basic_url v) = Some (recorded v got)" by blast+
      from r step_claim(5) have "get_basic_url v \<noteq> get_basic_url u" by auto
      with n r show "get_basic_url v \<notin> (\<lambda>p. get_basic_url (fst p)) ` set (fetching st')
           \<and> crawled_urls st' (get_basic_url v) = Some (recorded v got)"
        unfolding f c by auto
    qed
    ultimately show ?thesis by blast
  next
    case (step_done u depth transport got)
    have f: "fetching st' = remove1 (u, depth) (fetching st)"
      and c: "crawled_urls st' = (crawled_urls st)(get_basic_url u \<mapsto> recorded u got)"
      using step_done by (simp_all add: finish_item_fetching finish_item_crawled_urls recorded_def)
    have k: "get_basic_url u \<notin> (\<lambda>p. get_basic_url (fst p)) ` set (fetching st')"
      using key_notin_remove1 [OF I2 step_done(3)] unfolding f by simp
    have "\<forall>(v, d) \<in> set (fetching st').
            get_basic_url v \<in> dom (crawled_urls st') \<and> Claim v d \<in> set (evs @ [e])"
      using I1 set_remove1_subset [of "(u, depth)" "fetching st"] unfolding f c by fastforce
    moreover have "distinct (map (\<lambda>p. get_basic_url (fst p)) (fetching st'))"
      using I2 unfolding f by (rule distinct_map_remove1)
    moreover have "\<forall>v d got'. Done v d got' \<in> set (evs @ [e]) \<longrightarrow>
             get_basic_url v \<notin> (\<lambda>p. get_basic_url (fst p)) ` set (fetching st')
           \<and> crawled_urls st' (get_basic_url v) = Some (recorded v got')"
    proof (intro allI impI)
      fix v d got'
      assume a: "Done v d got' \<in> set (evs @ [e])"
      show "get_basic_url v \<notin> (\<lambda>p. get_basic_url (fst p)) ` set (fetching st')
           \<and> crawled_urls st' (get_basic_url v) = Some (recorded v got')"
      proof (cases "Done v d got' \<in> set evs")
        case True
        with I3 have n: "get_basic_url v \<notin> (\<lambda>p. get_basic_url (fst p)) ` set (fetching st)"
          and r: "crawled_urls st (get_basic_url v) = Some (recorded v got')" by blast+
        from n step_done(3) have "get_basic_url v \<noteq> get_basic_url u" by force
        moreover from n have "get_basic_url v \<notin> (\<lambda>p. get_basic_url (fst p)) ` set (fetching st')"
          unfolding f using image_remove1_subset [of "\<lambda>p. get_basic_url (fst p)" "(u, depth)" "fetching st"]
          by blast
        ultimately show ?thesis using r unfolding c by simp
      next
        case False
        with a step_done(1) have "v = u" "got' = got" by auto
        with k show ?thesis unfolding c by simp
      qed
    qed
    ultimately show ?thesis by blast
  next
    case (step_crash u depth transport)
    have f: "fetching st' = remove1 (u, depth) (fetching st)"
      and c: "crawled_urls st' = crawled_urls st"
      using step_crash by simp_all
    have "\<forall>(v, d) \<in> set (fetching st').
            get_basic_url v \<in> dom (crawled_urls st') \<and> Claim v d \<in> set (evs @ [e])"
      using I1 set_remove1_subset [of "(u, depth)" "fetching st"] unfolding f c by fastforce
    moreover have "distinct (map (\<lambda>p. get_basic_url (fst p)) (fetching st'))"
      using I2 unfolding f by (rule distinct_map_remove1)
    moreover have "\<forall>v d got. Done v d got \<in> set (evs @ [e]) \<longrightarrow>
             get_basic_url v \<notin> (\<lambda>p. get_basic_url (fst p)) ` set (fetching st')
           \<and> crawled_urls st' (get_basic_url v) = Some (recorded v got)"
    proof (intro allI impI)
      fix v d got
      assume "Done v d got \<in> set (evs @ [e])"
      with step_crash(1) have "Done v d got \<in> set evs" by auto
      with I3 have n: "get_basic_url v \<notin> (\<lambda>p. get_basic_url (fst p)) ` set (fetching st)"
        and r: "crawled_urls st (get_basic_url v) = Some (recorded v got)" by blast+
      from n have "get_basic_url v \<notin> (\<lambda>p. get_basic_url (fst p)) ` set (fetching st')"
        unfolding f using image_remove1_subset [of "\<lambda>p. get_basic_url (fst p)" "(u, depth)" "fetching st"]
        by blast
      with r show "get_basic_url v \<notin> (\<lambda>p. get_basic_url (fst p)) ` set (fetching st')
           \<and> crawled_urls st' (get_basic_url v) = Some (recorded v got)"
        unfolding c by simp
    qed
    ultimately show ?thesis by blast
  qed
qed


lemma run_Done_extracted:
  assumes "run ext self evs st" "Done u d got \<in> set evs"
  shows "\<exists>transport. fst (get_urls ext self transport u 0) = Some got"
  using assms
proof (induction rule: run.induct)
  case (run_start ext self)
  then show ?case by simp
next
  case (run_next ext self evs st e st')
  show ?case
  proof (cases "Done u d got \<in> set evs")
    case True
    then show ?thesis by (rule run_next.IH)
  next
    case False
    with run_next.prems have e: "e = Done u d got" by simp
    from run_next.hyps(2) show ?thesis unfolding e by (cases rule: step.cases) auto
  qed
qed

text \<open>
  C6: in every state of a run, once a worker has processed the page of a claimed item
  \<open>u\<close> (the event \<open>Done u d got\<close>, where \<open>got\<close> is the list that \<^verbatim>\<open>_get_urls\<close> returned for
  \<open>u\<close>), the entry of \<^verbatim>\<open>crawled_urls\<close> at the basic url of \<open>u\<close> is the list of the basic urls
  of \<open>got\<close>, in the order of \<open>got\<close> and with its duplicates, without the children whose
  basic url is that of \<open>u\<close>.
\<close>

theorem recorded_children:
  assumes "run ext self evs st" and "Done u d got \<in> set evs"
  shows "crawled_urls st (get_basic_url u)
           = Some (map get_basic_url (filter (\<lambda>c. get_basic_url c \<noteq> get_basic_url u) got))
       \<and> (\<exists>transport. fst (get_urls ext self transport u 0) = Some got)"
  using run_invariant [OF assms(1)] run_Done_extracted [OF assms] assms(2)
  unfolding recorded_def by blast

lemma mysite_run:
  "\<exists>got. fst (get_urls mysite_externals (mysite_crawler md) (\<lambda>_. Text []) mysite_root 0) = Some got
     \<and> map get_basic_url got = [''https://mysite.com/a'', ''https://mysite.com/content'']
     \<and> run mysite_externals (mysite_crawler md) [Claim mysite_root 0, Done mysite_root 0 got]
          (finish_item (mysite_crawler md) mysite_root 0 got
             ((initial (mysite_crawler md))
                \<lparr>queue := [], crawled_urls := (crawled_urls (initial (mysite_crawler md)))
                                 (get_basic_url mysite_root \<mapsto> []),
                 fetching := fetching (initial (mysite_crawler md)) @ [(mysite_root, 0)]\<rparr>))"
proof -
  let ?c = "mysite_crawler md"
  let ?s0 = "initial ?c"
  let ?s1 = "?s0\<lparr>queue := [], crawled_urls := (crawled_urls ?s0)(get_basic_url mysite_root \<mapsto> []),
                 fetching := fetching ?s0 @ [(mysite_root, 0)]\<rparr>"
  from mysite_links [of md] obtain got where
    g: "get_urls_from_text mysite_externals ?c [] mysite_root = Some got"
    and k: "map get_basic_url got = [''https://mysite.com/a'', ''https://mysite.com/content'']"
    by auto
  have f: "fst (get_urls mysite_externals ?c (\<lambda>_. Text []) mysite_root 0) = Some got"
    by (subst get_urls.simps) (simp add: g)
  have r0: "run mysite_externals ?c [] ?s0" by (rule run_start)
  have q: "queue ?s0 = (mysite_root, 0) # []" by (simp add: initial_def mysite_crawler_def)
  have i: "idle_worker ?c ?s0" by (simp add: idle_worker_def initial_def mysite_crawler_def)
  have n: "get_basic_url mysite_root \<notin> dom (crawled_urls ?s0)" by (simp add: initial_def)
  have "step mysite_externals ?c ?s0 (Claim mysite_root 0) ?s1"
    by (rule step_claim [OF q i n])
  with r0 have r1: "run mysite_externals ?c ([] @ [Claim mysite_root 0]) ?s1"
    by (rule run_next)
  have m: "(mysite_root, 0) \<in> set (fetching ?s1)" by simp
  have "step mysite_externals ?c ?s1 (Done mysite_root 0 got) (finish_item ?c mysite_root 0 got ?s1)"
    by (rule step_done [OF m f])
  with r1 have "run mysite_externals ?c (([] @ [Claim mysite_root 0]) @ [Done mysite_root 0 got])
      (finish_item ?c mysite_root 0 got ?s1)"
    by (rule run_next)
  with f k show ?thesis by auto
qed

theorem recorded_children_witness:
  "\<exists>got st. run mysite_externals (mysite_crawler None) [Claim mysite_root 0, Done mysite_root 0 got] st
     \<and> Done mysite_root 0 got \<in> set [Claim mysite_root 0, Done mysite_root 0 got]
     \<and> map get_basic_url got = [''https://mysite.com/a'', ''https://mysite.com/content'']
     \<and> crawled_urls st (get_basic_url mysite_root)
         = Some (map get_basic_url
                   (filter (\<lambda>c. get_basic_url c \<noteq> get_basic_url mysite_root) got))
     \<and> crawled_urls st ''https://mysite.com''
         = Some [''https://mysite.com/a'', ''https://mysite.com/content'']"
proof -
  from mysite_run [of None] obtain got where
    k: "map get_basic_url got = [''https://mysite.com/a'', ''https://mysite.com/content'']"
    and r0: "run mysite_externals (mysite_crawler None)
              [Claim mysite_root 0, Done mysite_root 0 got]
              (finish_item (mysite_crawler None) mysite_root 0 got
                 ((initial (mysite_crawler None))
                    \<lparr>queue := [], crawled_urls := (crawled_urls (initial (mysite_crawler None)))
                                 (get_basic_url mysite_root \<mapsto> []),
                     fetching := fetching (initial (mysite_crawler None)) @ [(mysite_root, 0)]\<rparr>))"
    by (elim exE conjE)
  define st where "st = finish_item (mysite_crawler None) mysite_root 0 got
                 ((initial (mysite_crawler None))
                    \<lparr>queue := [], crawled_urls := (crawled_urls (initial (mysite_crawler None)))
                                 (get_basic_url mysite_root \<mapsto> []),
                     fetching := fetching (initial (mysite_crawler None)) @ [(mysite_root, 0)]\<rparr>)"
  from r0 have r: "run mysite_externals (mysite_crawler None)
              [Claim mysite_root 0, Done mysite_root 0 got] st"
    unfolding st_def .
  have d: "Done mysite_root 0 got \<in> set [Claim mysite_root 0, Done mysite_root 0 got]" by simp
  have b: "get_basic_url mysite_root = ''https://mysite.com''"
    unfolding mysite_root_def by code_simp
  from recorded_children [OF r d] have
    c: "crawled_urls st (get_basic_url mysite_root)
         = Some (map get_basic_url
                   (filter (\<lambda>c. get_basic_url c \<noteq> get_basic_url mysite_root) got))"
    by blast
  have "map get_basic_url (filter (\<lambda>c. get_basic_url c \<noteq> get_basic_url mysite_root) got)
      = filter (\<lambda>k. k \<noteq> ''https://mysite.com'') (map get_basic_url got)"
    by (simp add: filter_map comp_def b)
  also have "\<dots> = [''https://mysite.com/a'', ''https://mysite.com/content'']"
    unfolding k by simp
  finally have fin: "crawled_urls st ''https://mysite.com''
         = Some [''https://mysite.com/a'', ''https://mysite.com/content'']"
    using c unfolding b by simp
  show ?thesis by (intro exI [of _ got] exI [of _ st] conjI r d k c fin)
qed


lemma run_depth0:
  assumes "run ext self evs st" and "max_depth self = Some 0"
  shows "(evs = [] \<and> st = initial self)
       \<or> (queue st = [] \<and> set (fetching st) \<subseteq> {(url self, 0)}
           \<and> dom (crawled_urls st) = {get_basic_url (url self)}
           \<and> (\<forall>e \<in> set evs. \<exists>got. e = Claim (url self) 0 \<or> e = Done (url self) 0 got
                                    \<or> e = Crash (url self) 0))"
  using assms
proof (induction rule: run.induct)
  case (run_start ext self)
  show ?case by simp
next
  case (run_next ext self evs st e st')
  from run_next.IH [OF run_next.prems] show ?case
  proof
    assume a: "evs = [] \<and> st = initial self"
    from run_next.hyps(2) show ?thesis
    proof (cases rule: step.cases)
      case (step_skip u depth q)
      with a show ?thesis by (simp add: initial_def)
    next
      case (step_claim u depth q)
      with a have "u = url self" "depth = 0" "q = []" by (simp_all add: initial_def)
      with step_claim a show ?thesis by (auto simp: initial_def split: if_splits)
    next
      case (step_done u depth transport got)
      with a show ?thesis by (simp add: initial_def)
    next
      case (step_crash u depth transport)
      with a show ?thesis by (simp add: initial_def)
    qed
  next
    assume b: "queue st = [] \<and> set (fetching st) \<subseteq> {(url self, 0)}
           \<and> dom (crawled_urls st) = {get_basic_url (url self)}
           \<and> (\<forall>e \<in> set evs. \<exists>got. e = Claim (url self) 0 \<or> e = Done (url self) 0 got
                                    \<or> e = Crash (url self) 0)"
    from run_next.hyps(2) have
      "queue st' = [] \<and> set (fetching st') \<subseteq> {(url self, 0)}
           \<and> dom (crawled_urls st') = {get_basic_url (url self)}
           \<and> (\<exists>got. e = Claim (url self) 0 \<or> e = Done (url self) 0 got \<or> e = Crash (url self) 0)"
    proof (cases rule: step.cases)
      case (step_skip u depth q)
      with b show ?thesis by simp
    next
      case (step_claim u depth q)
      with b show ?thesis by simp
    next
      case (step_done u depth transport got)
      with b have ud: "u = url self" "depth = 0" by auto
      have q: "queue st' = queue st"
        using step_done(2) run_next.prems unfolding ud by (simp add: finish_item_def Let_def)
      have "set (fetching st') \<subseteq> set (fetching st)"
        unfolding step_done(2) finish_item_fetching by (rule set_remove1_subset)
      moreover have "dom (crawled_urls st') = insert (get_basic_url u) (dom (crawled_urls st))"
        unfolding step_done(2) finish_item_crawled_urls by simp
      ultimately show ?thesis using b q step_done(1) ud by auto
    next
      case (step_crash u depth transport)
      with b have ud: "u = url self" "depth = 0" by auto
      have "set (fetching st') \<subseteq> set (fetching st)"
        unfolding step_crash(2) using set_remove1_subset [of "(u, depth)" "fetching st"] by simp
      with b step_crash ud show ?thesis by auto
    qed
    with b show ?thesis by auto
  qed
qed

text \<open>
  C2: from every state of a run, a step adds items to the queue only when it is the
  completion of an item \<open>(p, d)\<close> that was dequeued and claimed before, with
  \<^verbatim>\<open>max_depth\<close> unset or \<open>d < max_depth\<close>; every added item is \<open>(c, d + 1)\<close> for a child \<open>c\<close>
  among the extracted links of \<open>p\<close> whose domain is the root's, whose basic url is not a
  key of \<^verbatim>\<open>crawled_urls\<close>, and which is crawlable. With \<^verbatim>\<open>max_depth = 0\<close> only the root is
  ever fetched, and when \<^verbatim>\<open>crawl\<close> returns, the root's basic url is the only key of the map.
\<close>

theorem frontier_admission:
  assumes "run ext self evs st"
  shows "(\<forall>e st'. step ext self st e st' \<longrightarrow>
            (\<exists>new. queue st' =
                      (case e of Skip _ _ \<Rightarrow> tl (queue st) | Claim _ _ \<Rightarrow> tl (queue st)
                       | Done _ _ _ \<Rightarrow> queue st | Crash _ _ \<Rightarrow> queue st) @ new
                \<and> (\<forall>(c, d') \<in> set new.
                      \<exists>p d got. e = Done p d got \<and> Claim p d \<in> set evs \<and> d' = d + 1
                        \<and> (case max_depth self of None \<Rightarrow> True | Some m \<Rightarrow> d < m)
                        \<and> c \<in> set got \<and> domain c = domain (url self)
                        \<and> get_basic_url c \<notin> dom (crawled_urls st') \<and> is_crawlable c)))
       \<and> (max_depth self = Some 0 \<longrightarrow>
            (\<forall>e \<in> set evs. \<exists>got. e = Claim (url self) 0 \<or> e = Done (url self) 0 got
                                  \<or> e = Crash (url self) 0)
          \<and> (returned st \<longrightarrow> dom (crawled_urls st) = {get_basic_url (url self)}))"
proof (intro conjI allI impI)
  fix e st'
  assume "step ext self st e st'"
  then show "\<exists>new. queue st' =
                      (case e of Skip _ _ \<Rightarrow> tl (queue st) | Claim _ _ \<Rightarrow> tl (queue st)
                       | Done _ _ _ \<Rightarrow> queue st | Crash _ _ \<Rightarrow> queue st) @ new
                \<and> (\<forall>(c, d') \<in> set new.
                      \<exists>p d got. e = Done p d got \<and> Claim p d \<in> set evs \<and> d' = d + 1
                        \<and> (case max_depth self of None \<Rightarrow> True | Some m \<Rightarrow> d < m)
                        \<and> c \<in> set got \<and> domain c = domain (url self)
                        \<and> get_basic_url c \<notin> dom (crawled_urls st') \<and> is_crawlable c)"
  proof (cases rule: step.cases)
    case (step_skip u depth q)
    then show ?thesis by (intro exI [of _ "[]"]) simp
  next
    case (step_claim u depth q)
    then show ?thesis by (intro exI [of _ "[]"]) simp
  next
    case (step_crash u depth transport)
    then show ?thesis by (intro exI [of _ "[]"]) simp
  next
    case (step_done u depth transport got)
    from run_invariant [OF assms] step_done(3) have cl: "Claim u depth \<in> set evs" by auto
    from finish_item_queue [of self u depth got st] obtain new where
      q: "queue (finish_item self u depth got st) = queue st @ new" and
      n: "\<forall>(c, d') \<in> set new. d' = depth + 1
           \<and> (case max_depth self of None \<Rightarrow> True | Some m \<Rightarrow> depth < m)
           \<and> c \<in> set got \<and> get_basic_url c \<noteq> get_basic_url u
           \<and> domain c = domain (url self)
           \<and> get_basic_url c \<notin> dom (crawled_urls (finish_item self u depth got st))
           \<and> is_crawlable c"
      by blast
    show ?thesis
      unfolding step_done(1) step_done(2)
      using q n cl by (intro exI [of _ new]) auto
  qed
next
  assume m: "max_depth self = Some 0"
  from run_depth0 [OF assms m]
  show "\<forall>e \<in> set evs. \<exists>got. e = Claim (url self) 0 \<or> e = Done (url self) 0 got
                                  \<or> e = Crash (url self) 0"
    by auto
next
  assume m: "max_depth self = Some 0" and r: "returned st"
  from run_depth0 [OF assms m] r
  show "dom (crawled_urls st) = {get_basic_url (url self)}"
    by (auto simp: returned_def initial_def)
qed

theorem frontier_admission_witness:
  "\<exists>got st. run mysite_externals (mysite_crawler (Some 0))
               [Claim mysite_root 0, Done mysite_root 0 got] st
     \<and> max_depth (mysite_crawler (Some 0)) = Some 0
     \<and> returned st
     \<and> queue st = []
     \<and> dom (crawled_urls st) = {''https://mysite.com''}"
proof -
  let ?c = "mysite_crawler (Some 0)"
  from mysite_run [of "Some 0"] obtain got where
    r0: "run mysite_externals ?c [Claim mysite_root 0, Done mysite_root 0 got]
              (finish_item ?c mysite_root 0 got
                 ((initial ?c)
                    \<lparr>queue := [], crawled_urls := (crawled_urls (initial ?c))
                                 (get_basic_url mysite_root \<mapsto> []),
                     fetching := fetching (initial ?c) @ [(mysite_root, 0)]\<rparr>))"
    by (elim exE conjE)
  define st where "st = finish_item ?c mysite_root 0 got
                 ((initial ?c)
                    \<lparr>queue := [], crawled_urls := (crawled_urls (initial ?c))
                                 (get_basic_url mysite_root \<mapsto> []),
                     fetching := fetching (initial ?c) @ [(mysite_root, 0)]\<rparr>)"
  from r0 have r: "run mysite_externals ?c [Claim mysite_root 0, Done mysite_root 0 got] st"
    unfolding st_def .
  have m: "max_depth ?c = Some 0" by (simp add: mysite_crawler_def)
  have ret: "returned st"
    by (simp add: st_def returned_def finish_item_def Let_def m initial_def)
  have q: "queue st = []"
    by (simp add: st_def finish_item_def Let_def m initial_def)
  have b: "get_basic_url (url ?c) = ''https://mysite.com''"
    unfolding mysite_crawler_def mysite_root_def by code_simp
  from frontier_admission [OF r] m ret have "dom (crawled_urls st) = {get_basic_url (url ?c)}"
    by blast
  then have d: "dom (crawled_urls st) = {''https://mysite.com''}" unfolding b .
  show ?thesis by (intro exI [of _ got] exI [of _ st] conjI r m ret q d)
qed

section \<open>Re-parsing a basic url\<close>

lemma ascii_lower_idem: "ascii_lower (ascii_lower c) = ascii_lower c"
proof (cases "ascii_upper c")
  case True
  then have u: "65 \<le> (of_char c :: nat)" "(of_char c :: nat) \<le> 90"
    by (simp_all add: ascii_upper_def Let_def)
  then have "(of_char (char_of (of_char c + (32::nat))) :: nat) = of_char c + 32"
    by simp
  then have "\<not> ascii_upper (char_of (of_char c + (32::nat)))"
    using u by (simp add: ascii_upper_def Let_def)
  with True show ?thesis by (simp add: ascii_lower_def)
next
  case False
  then show ?thesis by (simp add: ascii_lower_def)
qed

lemma scheme_char_lower: "scheme_char c \<Longrightarrow> scheme_char (ascii_lower c)"
proof (cases "ascii_upper c")
  case True
  then have u: "65 \<le> (of_char c :: nat)" "(of_char c :: nat) \<le> 90"
    by (simp_all add: ascii_upper_def Let_def)
  then have "(of_char (char_of (of_char c + (32::nat))) :: nat) = of_char c + 32"
    by simp
  then have "ascii_alpha (char_of (of_char c + (32::nat)))"
    using u by (simp add: ascii_alpha_def Let_def)
  with True show ?thesis by (simp add: ascii_lower_def scheme_char_def)
next
  case False
  assume "scheme_char c"
  with False show ?thesis by (simp add: ascii_lower_def)
qed

lemma ascii_alpha_lower: "ascii_alpha c \<Longrightarrow> ascii_alpha (ascii_lower c)"
proof (cases "ascii_upper c")
  case True
  then have u: "65 \<le> (of_char c :: nat)" "(of_char c :: nat) \<le> 90"
    by (simp_all add: ascii_upper_def Let_def)
  then have "(of_char (char_of (of_char c + (32::nat))) :: nat) = of_char c + 32"
    by simp
  then have "ascii_alpha (char_of (of_char c + (32::nat)))"
    using u by (simp add: ascii_alpha_def Let_def)
  with True show ?thesis by (simp add: ascii_lower_def)
next
  case False
  assume "ascii_alpha c"
  with False show ?thesis by (simp add: ascii_lower_def)
qed

lemma scheme_char_facts:
  assumes "scheme_char c"
  shows "c \<noteq> CHR '':''" "c \<noteq> CHR ''/''" "\<not> unsafe_url_byte c" "\<not> whatwg_c0_control_or_space c"
  using assms
  by (auto simp: scheme_char_def ascii_alpha_def ascii_digit_def unsafe_url_byte_def
      whatwg_c0_control_or_space_def Let_def)

lemma split_scheme_scheme_like: "scheme_like (fst (split_scheme s))"
proof -
  define pre where "pre = takeWhile (\<lambda>c. c \<noteq> CHR '':'') s"
  show ?thesis
  proof (cases "pre \<noteq> s \<and> pre \<noteq> [] \<and> ascii_alpha (hd s) \<and> list_all scheme_char pre")
    case False
    then show ?thesis by (auto simp: split_scheme_def pre_def scheme_like_def Let_def)
  next
    case True
    then have f: "fst (split_scheme s) = map ascii_lower pre"
      by (auto simp: split_scheme_def pre_def Let_def)
    from True have "hd pre = hd s" unfolding pre_def by (cases s) (auto split: if_splits)
    with True have "ascii_alpha (hd (map ascii_lower pre))"
      by (simp add: hd_map ascii_alpha_lower)
    moreover have "list_all scheme_char (map ascii_lower pre)"
      using True by (auto simp: list_all_iff scheme_char_lower)
    moreover have "map ascii_lower (map ascii_lower pre) = map ascii_lower pre"
      by (simp add: ascii_lower_idem)
    ultimately show ?thesis unfolding f scheme_like_def by simp
  qed
qed

lemma split_scheme_assembled:
  assumes "scheme_like pr" "pr \<noteq> []"
  shows "split_scheme (pr @ CHR '':'' # rest) = (pr, rest)"
proof -
  from assms have no: "\<forall>c \<in> set pr. c \<noteq> CHR '':''"
    by (auto simp: scheme_like_def list_all_iff dest: scheme_char_facts(1))
  then have t: "takeWhile (\<lambda>c. c \<noteq> CHR '':'') (pr @ CHR '':'' # rest) = pr"
    by (simp add: takeWhile_append2)
  have h: "hd (pr @ CHR '':'' # rest) = hd pr" using assms(2) by simp
  from assms show ?thesis
    unfolding split_scheme_def t Let_def h
    by (auto simp: scheme_like_def)
qed


lemma set_replace_slashes: "set (replace_slashes s) \<subseteq> set s"
  by (induction s rule: replace_slashes.induct) auto

lemma hd_replace_slashes: "s \<noteq> [] \<Longrightarrow> replace_slashes s \<noteq> [] \<and> hd (replace_slashes s) = hd s"
  by (induction s rule: replace_slashes.induct) auto

lemma rcs_loop_set_hd:
  "set (rcs_loop p f) \<subseteq> set f \<and> (f \<noteq> [] \<longrightarrow> rcs_loop p f \<noteq> [] \<and> hd (rcs_loop p f) = hd f)"
proof (induction p f rule: rcs_loop.induct)
  case (1 p f)
  show ?case
  proof (cases "f = p")
    case True
    then show ?thesis by simp
  next
    case False
    then have eq: "rcs_loop p f = rcs_loop f (replace_slashes f)"
      by (rule rcs_loop_diff)
    from False have ih: "set (rcs_loop f (replace_slashes f)) \<subseteq> set (replace_slashes f)
        \<and> (replace_slashes f \<noteq> [] \<longrightarrow> rcs_loop f (replace_slashes f) \<noteq> []
              \<and> hd (rcs_loop f (replace_slashes f)) = hd (replace_slashes f))"
      by (rule "1.IH")
    show ?thesis
      unfolding eq using ih set_replace_slashes [of f] hd_replace_slashes [of f] by auto
  qed
qed

lemma refactor_set: "set (refactor t) \<subseteq> set t"
proof -
  have "set (remove_consecutive_slashes t) \<subseteq> set t"
    using rcs_loop_set_hd [of t "replace_slashes t"] set_replace_slashes [of t]
    by (auto simp: remove_consecutive_slashes_def)
  then show ?thesis
    by (auto simp: refactor_def Let_def dest: in_set_butlastD)
qed

lemma refactor_hd: "refactor t = [] \<or> (t \<noteq> [] \<and> hd (refactor t) = hd t)"
proof (cases "t = []")
  case True
  then show ?thesis by simp
next
  case False
  define t1 where "t1 = (if contains t ''//'' then remove_consecutive_slashes t else t)"
  have t1: "t1 \<noteq> [] \<and> hd t1 = hd t"
    using False rcs_loop_set_hd [of t "replace_slashes t"] hd_replace_slashes [of t]
    by (auto simp: t1_def remove_consecutive_slashes_def)
  define t2 where "t2 = (if t1 = ''/'' then [] else t1)"
  have r: "refactor t = (if endswith t2 ''/'' then butlast t2 else t2)"
    by (simp add: refactor_def t1_def t2_def Let_def)
  show ?thesis
  proof (cases "refactor t = []")
    case True
    then show ?thesis by simp
  next
    case ne: False
    then have "t2 \<noteq> []" unfolding r by (auto split: if_splits)
    then have t2: "t2 = t1" by (auto simp: t2_def split: if_splits)
    have "hd (refactor t) = hd t1"
    proof (cases "endswith t2 ''/''")
      case True
      with ne r have "butlast t1 \<noteq> []" unfolding t2 by simp
      then have "hd (butlast t1) = hd t1" by (cases t1) (auto split: if_splits)
      with True r t2 show ?thesis by simp
    next
      case False
      with r t2 show ?thesis by simp
    qed
    with t1 False show ?thesis by simp
  qed
qed


lemma set_snd_split_scheme: "set (snd (split_scheme s)) \<subseteq> set s"
  by (auto simp: split_scheme_def Let_def dest: in_set_dropD)

lemma hd_dropWhile_delim:
  "dropWhile (\<lambda>c. \<not> netloc_delim c) s = [] \<or> netloc_delim (hd (dropWhile (\<lambda>c. \<not> netloc_delim c) s))"
  using hd_dropWhile [of "\<lambda>c. \<not> netloc_delim c" s] by auto

lemma takeWhile_hd: "takeWhile P s = [] \<or> (s \<noteq> [] \<and> hd (takeWhile P s) = hd s)"
  by (cases s) auto

lemma urlsplit_props:
  assumes "urlsplit chk u = Some (sch, netloc, pth, q, f)"
  shows "scheme_like sch"
    and "\<forall>c \<in> set netloc \<union> set pth \<union> set q. \<not> unsafe_url_byte c"
    and "\<forall>c \<in> set netloc. \<not> netloc_delim c"
    and "netloc_ok chk netloc"
    and "CHR ''#'' \<notin> set pth \<union> set q"
    and "netloc \<noteq> [] \<longrightarrow> pth = [] \<or> hd pth = CHR ''/''"
proof -
  define url2 where "url2 = filter (\<lambda>c. \<not> unsafe_url_byte c) (dropWhile whatwg_c0_control_or_space u)"
  define url3 where "url3 = snd (split_scheme url2)"
  define nl4 where "nl4 = (if take 2 url3 = ''//'' then splitnetloc url3 else ([], url3))"
  define url5 where "url5 = (if CHR ''#'' \<in> set (snd nl4)
                             then fst (split_first CHR ''#'' (snd nl4)) else snd nl4)"
  from assms have sch: "sch = fst (split_scheme url2)"
    and netloc: "netloc = fst nl4"
    and ok: "netloc_ok chk netloc"
    and pth: "pth = (if CHR ''?'' \<in> set url5 then fst (split_first CHR ''?'' url5) else url5)"
    and q: "q = (if CHR ''?'' \<in> set url5 then snd (split_first CHR ''?'' url5) else [])"
    by (auto simp: urlsplit_def Let_def case_prod_beta url2_def url3_def nl4_def url5_def
        split: if_splits)
  show "scheme_like sch" unfolding sch by (rule split_scheme_scheme_like)
  show "netloc_ok chk netloc" by (rule ok)
  have s2: "\<forall>c \<in> set url2. \<not> unsafe_url_byte c" by (simp add: url2_def)
  have s3: "set url3 \<subseteq> set url2" unfolding url3_def by (rule set_snd_split_scheme)
  have sn: "set (fst nl4) \<subseteq> set url3"
    by (auto simp: nl4_def splitnetloc_def dest: set_takeWhileD in_set_dropD)
  have s4: "set (snd nl4) \<subseteq> set url3"
    by (auto simp: nl4_def splitnetloc_def dest: set_dropWhileD in_set_dropD)
  have s5: "set url5 \<subseteq> set (snd nl4)"
    by (auto simp: url5_def split_first_def dest: set_takeWhileD)
  have sp: "set pth \<subseteq> set url5"
    by (auto simp: pth split_first_def dest: set_takeWhileD)
  have sq: "set q \<subseteq> set url5"
    by (auto simp: q split_first_def dest: set_dropWhileD in_set_dropD)
  show "\<forall>c \<in> set netloc \<union> set pth \<union> set q. \<not> unsafe_url_byte c"
    using s2 s3 sn s4 s5 sp sq unfolding netloc by blast
  show "\<forall>c \<in> set netloc. \<not> netloc_delim c"
    by (auto simp: netloc nl4_def splitnetloc_def dest: set_takeWhileD)
  have h5: "CHR ''#'' \<notin> set url5"
    by (auto simp: url5_def split_first_def dest: set_takeWhileD)
  with sp sq show "CHR ''#'' \<notin> set pth \<union> set q" by blast
  show "netloc \<noteq> [] \<longrightarrow> pth = [] \<or> hd pth = CHR ''/''"
  proof
    assume "netloc \<noteq> []"
    then have n4: "snd nl4 = dropWhile (\<lambda>c. \<not> netloc_delim c) (drop 2 url3)"
      by (auto simp: netloc nl4_def splitnetloc_def split: if_splits)
    have d4: "snd nl4 = [] \<or> netloc_delim (hd (snd nl4))"
      unfolding n4 by (rule hd_dropWhile_delim)
    have p5: "pth = [] \<or> (url5 \<noteq> [] \<and> hd pth = hd url5 \<and> hd pth \<noteq> CHR ''?'')"
    proof (cases "CHR ''?'' \<in> set url5")
      case True
      then have e: "pth = takeWhile (\<lambda>x. x \<noteq> CHR ''?'') url5" by (simp add: pth split_first_def)
      show ?thesis
      proof (cases "pth = []")
        case False
        with takeWhile_hd [of "\<lambda>x. x \<noteq> CHR ''?''" url5]
        have "url5 \<noteq> [] \<and> hd pth = hd url5" unfolding e by auto
        moreover from False have "hd pth \<in> set pth" by simp
        then have "hd pth \<noteq> CHR ''?''" unfolding e by (auto dest: set_takeWhileD)
        ultimately show ?thesis by simp
      qed simp
    next
      case False
      then have e: "pth = url5" by (simp add: pth)
      show ?thesis
      proof (cases "pth = []")
        case ne: False
        then have "hd pth \<in> set url5" unfolding e by simp
        with False have "hd pth \<noteq> CHR ''?''" by auto
        with ne e show ?thesis by simp
      qed simp
    qed
    have u5: "url5 = [] \<or> (snd nl4 \<noteq> [] \<and> hd url5 = hd (snd nl4) \<and> hd url5 \<noteq> CHR ''#'')"
    proof (cases "url5 = []")
      case False
      then have "hd url5 \<in> set url5" by simp
      with h5 have nh: "hd url5 \<noteq> CHR ''#''" by auto
      show ?thesis
      proof (cases "CHR ''#'' \<in> set (snd nl4)")
        case True
        then have e: "url5 = takeWhile (\<lambda>x. x \<noteq> CHR ''#'') (snd nl4)"
          by (simp add: url5_def split_first_def)
        from False takeWhile_hd [of "\<lambda>x. x \<noteq> CHR ''#''" "snd nl4"]
        have "snd nl4 \<noteq> [] \<and> hd url5 = hd (snd nl4)" unfolding e by auto
        with nh show ?thesis by simp
      next
        case f: False
        then have "url5 = snd nl4" by (simp add: url5_def)
        with False nh show ?thesis by simp
      qed
    qed simp
    show "pth = [] \<or> hd pth = CHR ''/''"
    proof (cases "pth = []")
      case False
      with p5 have a: "url5 \<noteq> []" "hd pth = hd url5" "hd pth \<noteq> CHR ''?''" by auto
      with u5 have b: "snd nl4 \<noteq> []" "hd url5 = hd (snd nl4)" "hd url5 \<noteq> CHR ''#''" by auto
      with d4 have "netloc_delim (hd (snd nl4))" by simp
      with a b show ?thesis by (auto simp: netloc_delim_def)
    qed simp
  qed
qed



lemma splitparams_props:
  "set (fst (splitparams s)) \<subseteq> set s"
  "hd s = CHR ''/'' \<Longrightarrow> s \<noteq> [] \<Longrightarrow>
     fst (splitparams s) \<noteq> [] \<and> hd (fst (splitparams s)) = CHR ''/''"
proof -
  define front where "front = rev (dropWhile (\<lambda>c. c \<noteq> CHR ''/'') (rev s))"
  define seg where "seg = rev (takeWhile (\<lambda>c. c \<noteq> CHR ''/'') (rev s))"
  have s: "s = front @ seg"
    unfolding front_def seg_def
    by (metis rev_append rev_rev_ident takeWhile_dropWhile_id)
  show "set (fst (splitparams s)) \<subseteq> set s"
  proof -
    have "set front \<subseteq> set s" "set seg \<subseteq> set s" using s by (metis set_append Un_upper1, metis set_append Un_upper2)
    then show ?thesis
      unfolding splitparams_def Let_def front_def [symmetric] seg_def [symmetric]
      by (auto simp: split_first_def dest: set_takeWhileD)
  qed
  assume h: "hd s = CHR ''/''" and ne: "s \<noteq> []"
  then have m: "CHR ''/'' \<in> set s" by (cases s) auto
  then have "dropWhile (\<lambda>c. c \<noteq> CHR ''/'') (rev s) \<noteq> []"
    by (simp add: dropWhile_eq_Nil_conv)
  then have f: "front \<noteq> []" by (simp add: front_def)
  with s h have hf: "hd front = CHR ''/''" by (metis hd_append2)
  show "fst (splitparams s) \<noteq> [] \<and> hd (fst (splitparams s)) = CHR ''/''"
    using m f hf ne h
    unfolding splitparams_def Let_def front_def [symmetric] seg_def [symmetric]
    by (auto simp: split_first_def)
qed

lemma urlparse_props:
  assumes "urlparse chk u = Some (sch, netloc, pth, params, q, f)"
  shows "scheme_like sch"
    and "\<forall>c \<in> set netloc \<union> set pth \<union> set q. \<not> unsafe_url_byte c"
    and "\<forall>c \<in> set netloc. \<not> netloc_delim c"
    and "netloc_ok chk netloc"
    and "CHR ''#'' \<notin> set pth \<union> set q"
    and "netloc \<noteq> [] \<longrightarrow> pth = [] \<or> hd pth = CHR ''/''"
proof -
  from assms obtain pth0 where
    sp: "urlsplit chk u = Some (sch, netloc, pth0, q, f)" and
    p: "pth = pth0 \<or> pth = fst (splitparams pth0)"
    by (auto simp: urlparse_def split: option.splits prod.splits if_splits)
  note pr = urlsplit_props [OF sp]
  from p splitparams_props(1) [of pth0] have sub: "set pth \<subseteq> set pth0" by auto
  show "scheme_like sch" by (rule pr(1))
  show "\<forall>c \<in> set netloc \<union> set pth \<union> set q. \<not> unsafe_url_byte c" using pr(2) sub by blast
  show "\<forall>c \<in> set netloc. \<not> netloc_delim c" by (rule pr(3))
  show "netloc_ok chk netloc" by (rule pr(4))
  show "CHR ''#'' \<notin> set pth \<union> set q" using pr(5) sub by blast
  show "netloc \<noteq> [] \<longrightarrow> pth = [] \<or> hd pth = CHR ''/''"
  proof
    assume "netloc \<noteq> []"
    with pr(6) have a: "pth0 = [] \<or> hd pth0 = CHR ''/''" by simp
    from p show "pth = [] \<or> hd pth = CHR ''/''"
    proof
      assume "pth = pth0"
      with a show ?thesis by simp
    next
      assume e: "pth = fst (splitparams pth0)"
      show ?thesis
      proof (cases "pth0 = []")
        case True
        with sub show ?thesis by simp
      next
        case False
        with a splitparams_props(2) [of pth0] e show ?thesis by simp
      qed
    qed
  qed
qed

lemma netloc_ok_www: "netloc_ok chk (''www.'' @ d) = netloc_ok chk d"
  by (simp add: netloc_ok_def bracketed_host_def)

lemma refactor_ending_fields [simp]:
  "protocol (refactor_ending s) = protocol s"
  "parent_protocol (refactor_ending s) = parent_protocol s"
  "parent_domain (refactor_ending s) = parent_domain s"
  "string_url (refactor_ending s) = string_url s"
  "use_parent_protocol (refactor_ending s) = use_parent_protocol s"
  by (simp_all add: refactor_ending_def Let_def)

lemma refactor_path_fields [simp]:
  "protocol (refactor_path s) = protocol s"
  "parent_protocol (refactor_path s) = parent_protocol s"
  "parent_domain (refactor_path s) = parent_domain s"
  "string_url (refactor_path s) = string_url s"
  "use_parent_protocol (refactor_path s) = use_parent_protocol s"
  by (simp_all add: refactor_path_def Let_def)

lemma refactor_root_attributes_fields [simp]:
  "protocol (refactor_root_attributes s) = protocol s"
  "string_url (refactor_root_attributes s) = string_url s"
  "use_parent_protocol (refactor_root_attributes s) = use_parent_protocol s"
  "parent_protocol (refactor_root_attributes s)
     = (if parent_protocol s = [] then protocol s else parent_protocol s)"
  "parent_domain (refactor_root_attributes s)
     = (if parent_domain s = [] then domain s else parent_domain s)"
  by (simp_all add: refactor_root_attributes_def Let_def)

lemma refactor_attributes_fields:
  "string_url (refactor_attributes s) = string_url s"
  "use_parent_protocol (refactor_attributes s) = use_parent_protocol s"
  "parent_protocol (refactor_attributes s) = parent_protocol s"
  "parent_domain (refactor_attributes s) = parent_domain s"
  "protocol (refactor_attributes s)
     = (if (domain s = [] \<or> domain s = parent_domain s) \<and> protocol s = []
        then parent_protocol s else protocol s)"
  "domain (refactor_attributes s) = (if domain s = [] then parent_domain s else domain s)"
  by (simp_all add: refactor_attributes_def Let_def split: option.splits)

lemma path_refactor_attributes_no_parent:
  "parent_path s = [] \<Longrightarrow> parent_domain s = [] \<Longrightarrow>
   path (refactor_attributes s)
     = refactor (if domain s = []
                 then (if startswith (path s) ''./'' then drop 1 (path s)
                       else if path s \<noteq> [] \<and> \<not> startswith (path s) ''/'' then ''/'' @ path s
                       else path s)
                 else path s)"
  by (simp add: refactor_attributes_def path_refactor_ending path_refactor_path Let_def
      split: option.splits)

lemma init_attributes_no_parent [simp]:
  "string_url (init_attributes u None upp (pr, w, d, p, f)) = u"
  "parent_protocol (init_attributes u None upp (pr, w, d, p, f)) = []"
  "parent_domain (init_attributes u None upp (pr, w, d, p, f)) = []"
  "parent_path (init_attributes u None upp (pr, w, d, p, f)) = []"
  "protocol (init_attributes u None upp (pr, w, d, p, f)) = pr"
  "domain (init_attributes u None upp (pr, w, d, p, f)) = d"
  "path (init_attributes u None upp (pr, w, d, p, f)) = p"
  "use_parent_protocol (init_attributes u None upp (pr, w, d, p, f)) = upp"
  by (simp_all add: init_attributes_def)


lemma Url_no_parent_fields:
  assumes "Url chk u None upp = Some x"
  obtains pr netloc p0 where
    "scheme_like pr" "protocol x = pr" "parent_protocol x = pr"
    "domain x = (if prefix ''www.'' netloc then drop 4 netloc else netloc)"
    "parent_domain x = domain x" "string_url x = u" "use_parent_protocol x = upp"
    "\<forall>c \<in> set netloc \<union> set p0. \<not> unsafe_url_byte c"
    "\<forall>c \<in> set netloc. \<not> netloc_delim c"
    "netloc_ok chk netloc"
    "CHR ''#'' \<notin> set p0"
    "netloc \<noteq> [] \<longrightarrow> p0 = [] \<or> hd p0 = CHR ''/'' \<or> hd p0 = CHR ''?''"
    "path x = refactor (if domain x = []
                        then (if startswith p0 ''./'' then drop 1 p0
                              else if p0 \<noteq> [] \<and> \<not> startswith p0 ''/'' then ''/'' @ p0 else p0)
                        else p0)"
proof -
  from assms obtain info where i: "get_url_info chk u = Some info"
    and x: "x = refactor_root_attributes (refactor_attributes (init_attributes u None upp info))"
    by (rule Url_SomeD)
  obtain pr w d p0 f where info: "info = (pr, w, d, p0, f)" by (cases info) auto
  from i info obtain netloc pth params q where
    pa: "urlparse chk u = Some (pr, netloc, pth, params, q, f)" and
    w: "w = prefix ''www.'' netloc" and
    d: "d = (if prefix ''www.'' netloc then drop 4 netloc else netloc)" and
    p0: "p0 = (if q = [] then pth else pth @ ''?'' @ q)"
    by (auto elim: get_url_info_SomeD)
  note pp = urlparse_props [OF pa]
  have 1: "scheme_like pr" by (rule pp(1))
  have 2: "protocol x = pr"
    unfolding x info by (simp add: refactor_attributes_fields)
  have 3: "parent_protocol x = pr"
    unfolding x info by (simp add: refactor_attributes_fields)
  have dx: "domain x = d"
    unfolding x info by (simp add: refactor_attributes_fields)
  have 4: "domain x = (if prefix ''www.'' netloc then drop 4 netloc else netloc)"
    unfolding dx by (rule d)
  have 5: "parent_domain x = domain x"
    unfolding x info by (simp add: refactor_attributes_fields)
  have 6: "string_url x = u"
    unfolding x info by (simp add: refactor_attributes_fields)
  have 7: "use_parent_protocol x = upp"
    unfolding x info by (simp add: refactor_attributes_fields)
  have 8: "\<forall>c \<in> set netloc \<union> set p0. \<not> unsafe_url_byte c"
  proof
    fix c assume "c \<in> set netloc \<union> set p0"
    then have "c \<in> set netloc \<union> set pth \<union> set q \<or> c = CHR ''?''"
      unfolding p0 by (auto split: if_splits)
    then show "\<not> unsafe_url_byte c"
      using pp(2) by (auto simp: unsafe_url_byte_def)
  qed
  have 9: "CHR ''#'' \<notin> set p0" using pp(5) unfolding p0 by (auto split: if_splits)
  have 10: "netloc \<noteq> [] \<longrightarrow> p0 = [] \<or> hd p0 = CHR ''/'' \<or> hd p0 = CHR ''?''"
  proof
    assume "netloc \<noteq> []"
    with pp(6) have "pth = [] \<or> hd pth = CHR ''/''" by simp
    then show "p0 = [] \<or> hd p0 = CHR ''/'' \<or> hd p0 = CHR ''?''"
      unfolding p0 by (cases pth) (simp_all split: if_splits)
  qed
  have 11: "path x = refactor (if domain x = []
                        then (if startswith p0 ''./'' then drop 1 p0
                              else if p0 \<noteq> [] \<and> \<not> startswith p0 ''/'' then ''/'' @ p0 else p0)
                        else p0)"
    unfolding dx unfolding x info
    by (simp add: path_refactor_attributes_no_parent)
  show ?thesis
    by (rule that [OF 1 2 3 4 5 6 7 8 pp(3) pp(4) 9 10 11])
qed

lemma splitnetloc_assembled:
  assumes "\<forall>c \<in> set d. \<not> netloc_delim c" "pa = [] \<or> netloc_delim (hd pa)"
  shows "splitnetloc (''//'' @ d @ pa) = (d, pa)"
proof -
  have t: "takeWhile (\<lambda>c. \<not> netloc_delim c) pa = []"
    using assms(2) by (cases pa) auto
  have dw: "dropWhile (\<lambda>c. \<not> netloc_delim c) pa = pa"
    using assms(2) by (cases pa) auto
  show ?thesis
    using assms(1) by (simp add: splitnetloc_def takeWhile_append2 dropWhile_append2 t dw)
qed

lemma urlsplit_assembled:
  assumes sl: "scheme_like pr" and ne: "pr \<noteq> []"
    and safe: "\<forall>c \<in> set d \<union> set pa. \<not> unsafe_url_byte c"
    and nd: "\<forall>c \<in> set d. \<not> netloc_delim c"
    and ok: "netloc_ok chk d"
    and nh: "CHR ''#'' \<notin> set pa"
    and st: "pa = [] \<or> netloc_delim (hd pa)"
  shows "urlsplit chk (pr @ ''://'' @ d @ pa) =
           Some (pr, d,
                 (if CHR ''?'' \<in> set pa then fst (split_first CHR ''?'' pa) else pa),
                 (if CHR ''?'' \<in> set pa then snd (split_first CHR ''?'' pa) else []),
                 [])"
proof -
  let ?b = "pr @ ''://'' @ d @ pa"
  from ne obtain h t where pr: "pr = h # t" by (cases pr) auto
  from sl pr have "ascii_alpha h" by (simp add: scheme_like_def)
  then have "\<not> whatwg_c0_control_or_space h"
    by (auto simp: ascii_alpha_def whatwg_c0_control_or_space_def Let_def)
  then have 1: "dropWhile whatwg_c0_control_or_space ?b = ?b" by (simp add: pr)
  have "\<forall>c \<in> set pr. \<not> unsafe_url_byte c"
    using sl by (auto simp: scheme_like_def list_all_iff dest: scheme_char_facts(3))
  with safe have "\<forall>c \<in> set ?b. \<not> unsafe_url_byte c"
    by (auto simp: unsafe_url_byte_def)
  then have 2: "filter (\<lambda>c. \<not> unsafe_url_byte c) ?b = ?b" by (simp add: filter_id_conv)
  have 3: "split_scheme ?b = (pr, ''//'' @ d @ pa)"
    using split_scheme_assembled [OF sl ne, of "''//'' @ d @ pa"] by simp
  have 4: "splitnetloc (''//'' @ d @ pa) = (d, pa)"
    using nd st by (rule splitnetloc_assembled)
  have 5: "take 2 (''//'' @ d @ pa) = ''//''" by simp
  show ?thesis
    unfolding urlsplit_def 1 2 Let_def 3 case_prod_conv 5 using 4 ok nh
    by (simp add: case_prod_beta)
qed


lemma rejoin_query:
  assumes "pa \<noteq> before_query pa @ ''?''"
  shows "(if (if CHR ''?'' \<in> set pa then snd (split_first CHR ''?'' pa) else []) = []
          then (if CHR ''?'' \<in> set pa then fst (split_first CHR ''?'' pa) else pa)
          else (if CHR ''?'' \<in> set pa then fst (split_first CHR ''?'' pa) else pa) @ ''?''
               @ (if CHR ''?'' \<in> set pa then snd (split_first CHR ''?'' pa) else [])) = pa"
proof (cases "CHR ''?'' \<in> set pa")
  case False
  then show ?thesis by simp
next
  case True
  define a where "a = takeWhile (\<lambda>x. x \<noteq> CHR ''?'') pa"
  define b where "b = dropWhile (\<lambda>x. x \<noteq> CHR ''?'') pa"
  have pa: "pa = a @ b" by (simp add: a_def b_def)
  from True have bn: "b \<noteq> []" by (simp add: b_def dropWhile_eq_Nil_conv)
  with hd_dropWhile [of "\<lambda>x. x \<noteq> CHR ''?''" pa] have "hd b = CHR ''?''" by (simp add: b_def)
  with bn have b: "b = CHR ''?'' # drop 1 b" by (cases b) auto
  have "drop 1 b \<noteq> []"
  proof
    assume "drop 1 b = []"
    with b have "b = ''?''" by simp
    then have "a @ b = a @ ''?''" by (rule arg_cong)
    then have "pa = a @ ''?''" unfolding pa [symmetric] .
    then have "pa = before_query pa @ ''?''" unfolding before_query_def a_def .
    with assms show False by (rule notE)
  qed
  moreover have "a @ ''?'' @ drop 1 b = pa" using pa b by simp
  ultimately show ?thesis using True by (simp add: split_first_def a_def b_def)
qed

lemma splitparams_stable:
  assumes "CHR ''/'' \<in> set s" "CHR '';'' \<notin> set (last_segment s)"
  shows "splitparams s = (s, [])"
  using assms by (simp add: splitparams_def last_segment_def Let_def)

lemma http_uses_params:
  "startswith pr ''http'' \<Longrightarrow> pr \<in> set uses_params \<Longrightarrow> pr = ''http'' \<or> pr = ''https''"
  by (auto simp: uses_params_def startswith_def)

lemma get_url_info_assembled:
  assumes sl: "scheme_like pr" and http: "startswith pr ''http''"
    and safe: "\<forall>c \<in> set d \<union> set pa. \<not> unsafe_url_byte c"
    and nd: "\<forall>c \<in> set d. \<not> netloc_delim c"
    and ok: "netloc_ok chk d"
    and nh: "CHR ''#'' \<notin> set pa"
    and st: "pa = [] \<or> netloc_delim (hd pa)"
    and nw: "\<not> startswith d ''www.''"
    and ns: "pr = ''http'' \<or> pr = ''https'' \<longrightarrow> CHR '';'' \<notin> set (last_segment (before_query pa))"
    and nq: "pa \<noteq> before_query pa @ ''?''"
  shows "get_url_info chk (pr @ ''://'' @ d @ pa) = Some (pr, False, d, pa, [])"
proof -
  from http have ne: "pr \<noteq> []" by (auto simp: startswith_def)
  define pth2 where "pth2 = (if CHR ''?'' \<in> set pa then fst (split_first CHR ''?'' pa) else pa)"
  define q2 where "q2 = (if CHR ''?'' \<in> set pa then snd (split_first CHR ''?'' pa) else [])"
  have us: "urlsplit chk (pr @ ''://'' @ d @ pa) = Some (pr, d, pth2, q2, [])"
    unfolding pth2_def q2_def by (rule urlsplit_assembled [OF sl ne safe nd ok nh st])
  have bq: "pth2 = before_query pa"
  proof (cases "CHR ''?'' \<in> set pa")
    case True
    then show ?thesis by (simp add: pth2_def before_query_def split_first_def)
  next
    case False
    then have "\<forall>c \<in> set pa. c \<noteq> CHR ''?''" by auto
    then have tw: "takeWhile (\<lambda>c. c \<noteq> CHR ''?'') pa = pa" by (simp only: takeWhile_eq_all_conv)
    show ?thesis unfolding pth2_def before_query_def tw using False by simp
  qed
  have stable: "fst (splitparams pth2) = pth2" if u: "pr \<in> set uses_params" and s: "CHR '';'' \<in> set pth2"
  proof -
    from s have pne: "pth2 \<noteq> []" by auto
    have "hd pth2 = hd pa" "pa \<noteq> []"
      using pne takeWhile_hd [of "\<lambda>c. c \<noteq> CHR ''?''" pa] unfolding bq before_query_def by auto
    moreover have "hd pth2 \<noteq> CHR ''?''"
    proof -
      from pne have "hd pth2 \<in> set pth2" by simp
      then show ?thesis unfolding bq before_query_def by (auto dest: set_takeWhileD)
    qed
    moreover have "hd pa \<noteq> CHR ''#''" using nh \<open>pa \<noteq> []\<close> by (cases pa) auto
    ultimately have "hd pth2 = CHR ''/''" using st by (auto simp: netloc_delim_def)
    with pne have sl: "CHR ''/'' \<in> set pth2" by (cases pth2) auto
    from http_uses_params [OF http u] ns have "CHR '';'' \<notin> set (last_segment pth2)"
      unfolding bq by simp
    with sl show ?thesis by (simp add: splitparams_stable)
  qed
  have "\<exists>params. urlparse chk (pr @ ''://'' @ d @ pa) = Some (pr, d, pth2, params, q2, [])"
    unfolding urlparse_def us using stable by auto
  then obtain params where
    up: "urlparse chk (pr @ ''://'' @ d @ pa) = Some (pr, d, pth2, params, q2, [])" by blast
  have rj: "(if q2 = [] then pth2 else pth2 @ ''?'' @ q2) = pa"
    unfolding pth2_def q2_def by (rule rejoin_query [OF nq])
  show ?thesis
    unfolding get_url_info_def up using nw rj by simp
qed

lemma Url_assembled:
  assumes sl: "scheme_like pr" and http: "startswith pr ''http''"
    and safe: "\<forall>c \<in> set d \<union> set pa. \<not> unsafe_url_byte c"
    and nd: "\<forall>c \<in> set d. \<not> netloc_delim c"
    and ok: "netloc_ok chk d"
    and nh: "CHR ''#'' \<notin> set pa"
    and st: "pa = [] \<or> netloc_delim (hd pa)"
    and st0: "d = [] \<longrightarrow> pa = [] \<or> hd pa = CHR ''/''"
    and norm: "normalized pa"
    and nw: "\<not> startswith d ''www.''"
    and ns: "pr = ''http'' \<or> pr = ''https'' \<longrightarrow> CHR '';'' \<notin> set (last_segment (before_query pa))"
    and nq: "pa \<noteq> before_query pa @ ''?''"
  shows "\<exists>y. Url chk (pr @ ''://'' @ d @ pa) None True = Some y
            \<and> get_basic_url y = pr @ ''://'' @ d @ pa"
proof -
  let ?b = "pr @ ''://'' @ d @ pa"
  have gi: "get_url_info chk ?b = Some (pr, False, d, pa, [])"
    by (rule get_url_info_assembled [OF sl http safe nd ok nh st nw ns nq])
  define y where "y = refactor_root_attributes (refactor_attributes
                         (init_attributes ?b None True (pr, False, d, pa, [])))"
  have u: "Url chk ?b None True = Some y" unfolding Url_def gi y_def by simp
  have p: "protocol y = pr" "parent_protocol y = pr" "domain y = d" "parent_domain y = d"
    unfolding y_def by (simp_all add: refactor_attributes_fields)
  have res: "(if d = []
              then (if startswith pa ''./'' then drop 1 pa
                    else if pa \<noteq> [] \<and> \<not> startswith pa ''/'' then ''/'' @ pa else pa)
              else pa) = pa"
  proof (cases "d = []")
    case False
    then show ?thesis by simp
  next
    case True
    with st0 have "pa = [] \<or> hd pa = CHR ''/''" by simp
    then show ?thesis by (cases pa) (auto simp: startswith_def)
  qed
  have "path y = refactor (if d = []
              then (if startswith pa ''./'' then drop 1 pa
                    else if pa \<noteq> [] \<and> \<not> startswith pa ''/'' then ''/'' @ pa else pa)
              else pa)"
    unfolding y_def by (simp add: path_refactor_attributes_no_parent)
  then have pth: "path y = pa" unfolding res using norm by (simp add: refactor_fix)
  have gp: "get_protocol y = pr" by (simp add: get_protocol_def p)
  have "get_basic_url y = ?b" using http by (simp add: get_basic_url_def gp p pth)
  with u show ?thesis by blast
qed

text \<open>
  C7, as amended: for an input \<open>u\<close> from which a Url is constructed with no parent,
  constructing a Url from its basic url succeeds and gives the same basic url, provided
  that either the protocol it renders does not start with \<^verbatim>\<open>http\<close> (the basic url is then \<open>u\<close>
  itself), or its domain does not start with \<^verbatim>\<open>www.\<close>, the first question mark of its path
  is not the last character of the path and, when the protocol is \<^verbatim>\<open>http\<close> or \<^verbatim>\<open>https\<close>, there
  is no semicolon in the last segment of the part of the path before the first question mark.
  Semicolons in earlier segments and after the first question mark, and further question
  marks, are allowed.
\<close>

theorem basic_url_reparse:
  assumes x: "Url chk u None True = Some x"
    and c: "startswith (get_protocol x) ''http'' \<longrightarrow>
              \<not> startswith (domain x) ''www.''
              \<and> (get_protocol x = ''http'' \<or> get_protocol x = ''https'' \<longrightarrow>
                   CHR '';'' \<notin> set (last_segment (before_query (path x))))
              \<and> path x \<noteq> before_query (path x) @ ''?''"
  shows "\<exists>y. Url chk (get_basic_url x) None True = Some y
            \<and> get_basic_url y = get_basic_url x"
proof -
  from x obtain pr netloc p0 where
    sl: "scheme_like pr" and pr: "protocol x = pr" and ppr: "parent_protocol x = pr"
    and d: "domain x = (if prefix ''www.'' netloc then drop 4 netloc else netloc)"
    and pd: "parent_domain x = domain x" and su: "string_url x = u"
    and safe0: "\<forall>c \<in> set netloc \<union> set p0. \<not> unsafe_url_byte c"
    and nd0: "\<forall>c \<in> set netloc. \<not> netloc_delim c"
    and ok0: "netloc_ok chk netloc"
    and nh0: "CHR ''#'' \<notin> set p0"
    and st1: "netloc \<noteq> [] \<longrightarrow> p0 = [] \<or> hd p0 = CHR ''/'' \<or> hd p0 = CHR ''?''"
    and pth: "path x = refactor (if domain x = []
                        then (if startswith p0 ''./'' then drop 1 p0
                              else if p0 \<noteq> [] \<and> \<not> startswith p0 ''/'' then ''/'' @ p0 else p0)
                        else p0)"
    by (rule Url_no_parent_fields)
  have gp: "get_protocol x = pr" by (simp add: get_protocol_def pr ppr)
  show ?thesis
  proof (cases "startswith pr ''http''")
    case False
    then have "get_basic_url x = u" by (simp add: get_basic_url_def gp su)
    with x show ?thesis by simp
  next
    case True
    define R where "R = (if domain x = []
                        then (if startswith p0 ''./'' then drop 1 p0
                              else if p0 \<noteq> [] \<and> \<not> startswith p0 ''/'' then ''/'' @ p0 else p0)
                        else p0)"
    have pa: "path x = refactor R" unfolding R_def by (rule pth)
    have b: "get_basic_url x = pr @ ''://'' @ domain x @ path x"
      using True by (simp add: get_basic_url_def gp)
    have dsub: "set (domain x) \<subseteq> set netloc" unfolding d by (auto dest: in_set_dropD)
    have Rsub: "set R \<subseteq> insert CHR ''/'' (set p0)"
      unfolding R_def by (auto dest: in_set_dropD)
    have psub: "set (path x) \<subseteq> insert CHR ''/'' (set p0)"
      unfolding pa using refactor_set [of R] Rsub by blast
    have safe: "\<forall>c \<in> set (domain x) \<union> set (path x). \<not> unsafe_url_byte c"
    proof
      fix c assume "c \<in> set (domain x) \<union> set (path x)"
      with dsub psub have "c \<in> set netloc \<union> set p0 \<or> c = CHR ''/''" by blast
      then show "\<not> unsafe_url_byte c" using safe0 by (auto simp: unsafe_url_byte_def)
    qed
    have nd: "\<forall>c \<in> set (domain x). \<not> netloc_delim c" using nd0 dsub by blast
    have ok: "netloc_ok chk (domain x)"
    proof (cases "prefix ''www.'' netloc")
      case True
      then obtain r where n: "netloc = ''www.'' @ r" by (auto simp: prefix_def)
      with d have "domain x = r" by simp
      with ok0 n netloc_ok_www [of chk r] show ?thesis by simp
    next
      case False
      with d ok0 show ?thesis by simp
    qed
    have nh: "CHR ''#'' \<notin> set (path x)" using psub nh0 by auto
    have R0: "domain x = [] \<longrightarrow> R = [] \<or> hd R = CHR ''/''"
    proof
      assume e: "domain x = []"
      show "R = [] \<or> hd R = CHR ''/''"
      proof (cases "startswith p0 ''./''")
        case True
        then obtain r where "p0 = CHR ''.'' # CHR ''/'' # r" by (auto simp: startswith_Cons)
        with e True show ?thesis by (simp add: R_def)
      next
        case False
        with e show ?thesis by (cases p0) (auto simp: R_def startswith_def)
      qed
    qed
    have R1: "domain x \<noteq> [] \<longrightarrow> R = [] \<or> hd R = CHR ''/'' \<or> hd R = CHR ''?''"
    proof
      assume e: "domain x \<noteq> []"
      then have "netloc \<noteq> []" unfolding d by (auto split: if_splits)
      with st1 e show "R = [] \<or> hd R = CHR ''/'' \<or> hd R = CHR ''?''" by (simp add: R_def)
    qed
    have st0: "domain x = [] \<longrightarrow> path x = [] \<or> hd (path x) = CHR ''/''"
      using R0 refactor_hd [of R] unfolding pa by auto
    have st: "path x = [] \<or> netloc_delim (hd (path x))"
    proof (cases "domain x = []")
      case True
      with st0 show ?thesis by (auto simp: netloc_delim_def)
    next
      case False
      with R1 refactor_hd [of R] show ?thesis unfolding pa by (auto simp: netloc_delim_def)
    qed
    have norm: "normalized (path x)" unfolding pa by (rule refactor_normalized)
    from c True gp have nw: "\<not> startswith (domain x) ''www.''"
      and ns: "pr = ''http'' \<or> pr = ''https'' \<longrightarrow>
                 CHR '';'' \<notin> set (last_segment (before_query (path x)))"
      and nq: "path x \<noteq> before_query (path x) @ ''?''"
      by simp_all
    from Url_assembled [OF sl True safe nd ok nh st st0 norm nw ns nq]
    show ?thesis unfolding b .
  qed
qed

theorem basic_url_reparse_witness:
  "\<exists>x y. Url (\<lambda>_. True) ''HTTP://www.mysite.com//a;b/test/?q=1;2?#top'' None True = Some x
     \<and> get_protocol x = ''http''
     \<and> \<not> startswith (domain x) ''www.''
     \<and> CHR '';'' \<notin> set (last_segment (before_query (path x)))
     \<and> path x \<noteq> before_query (path x) @ ''?''
     \<and> get_basic_url x = ''http://mysite.com/a;b/test/?q=1;2?''
     \<and> Url (\<lambda>_. True) (get_basic_url x) None True = Some y
     \<and> get_basic_url y = get_basic_url x"
proof -
  have "map_option (\<lambda>x. (get_protocol x, domain x, path x, get_basic_url x))
          (Url (\<lambda>_. True) ''HTTP://www.mysite.com//a;b/test/?q=1;2?#top'' None True)
        = Some (''http'', ''mysite.com'', ''/a;b/test/?q=1;2?'',
                ''http://mysite.com/a;b/test/?q=1;2?'')"
    by code_simp
  then obtain x where
    x: "Url (\<lambda>_. True) ''HTTP://www.mysite.com//a;b/test/?q=1;2?#top'' None True = Some x"
    and gp: "get_protocol x = ''http''" and dx: "domain x = ''mysite.com''"
    and px: "path x = ''/a;b/test/?q=1;2?''"
    and bx: "get_basic_url x = ''http://mysite.com/a;b/test/?q=1;2?''"
    by auto
  have h2: "\<not> startswith (domain x) ''www.''" unfolding dx by code_simp
  have h3: "CHR '';'' \<notin> set (last_segment (before_query (path x)))" unfolding px by code_simp
  have h4: "path x \<noteq> before_query (path x) @ ''?''" unfolding px by code_simp
  from h2 h3 h4 have c: "startswith (get_protocol x) ''http'' \<longrightarrow>
              \<not> startswith (domain x) ''www.''
              \<and> (get_protocol x = ''http'' \<or> get_protocol x = ''https'' \<longrightarrow>
                   CHR '';'' \<notin> set (last_segment (before_query (path x))))
              \<and> path x \<noteq> before_query (path x) @ ''?''"
    by simp
  from basic_url_reparse [OF x c] obtain y where
    y: "Url (\<lambda>_. True) (get_basic_url x) None True = Some y"
    and e: "get_basic_url y = get_basic_url x"
    by blast
  show ?thesis
    by (intro exI [of _ x] exI [of _ y] conjI x gp h2 h3 h4 bx y e)
qed

text \<open>
  The claim as stated fails in three ways: a second prefix \<^verbatim>\<open>www.\<close> is removed by the second
  construction; a question mark that normalisation leaves at the end of the path is dropped
  by the second parse; and a trailing slash removed by normalisation exposes parameters
  after a semicolon, which the second parse removes.
\<close>

theorem basic_url_reparse_counterexample:
  "map_option get_basic_url (Url (\<lambda>_. True) ''http://www.www.mysite.com'' None True)
     = Some ''http://www.mysite.com''
   \<and> map_option get_basic_url (Url (\<lambda>_. True) ''http://www.mysite.com'' None True)
     = Some ''http://mysite.com''
   \<and> map_option get_basic_url (Url (\<lambda>_. True) ''http://mysite.com/?/'' None True)
     = Some ''http://mysite.com/?''
   \<and> map_option get_basic_url (Url (\<lambda>_. True) ''http://mysite.com/?'' None True)
     = Some ''http://mysite.com''
   \<and> map_option get_basic_url (Url (\<lambda>_. True) ''http://mysite.com/a;b/c;d/'' None True)
     = Some ''http://mysite.com/a;b/c;d''
   \<and> map_option get_basic_url (Url (\<lambda>_. True) ''http://mysite.com/a;b/c;d'' None True)
     = Some ''http://mysite.com/a;b/c''"
  by (intro conjI; code_simp)

end
